theory Spec2Isabelle
  imports Main "HOL-Library.Word" "HOL-Library.Multiset"
begin

section \<open>Go library functions used by the services\<close>

text \<open>
  The two services of the Top-K pipeline, \<^verbatim>\<open>services/api-server/main.go\<close> and
  \<^verbatim>\<open>services/aggregator/main.go\<close> (the version with the Redis Bloom filter), are
  embedded function by function. This section models the functions of Go's standard
  library that they call. Go's \<^verbatim>\<open>int64\<close> is a 64-bit word read with \<open>sint\<close>; Go's
  \<^verbatim>\<open>int\<close> is taken to be 64 bits wide, and values that the code keeps within a small
  range (a rank, a day number, a partition offset) are \<open>int\<close>.

  Whatever a function gets from outside the process (the clock, the answers of
  Cassandra, Redis and Kafka, the order in which Go visits a map) is an argument of its
  model, so that a theorem holds for every behaviour of the outside that its hypotheses
  allow. Logging is left out.
\<close>

type_synonym int64 = "64 word"

subsection \<open>Decimal formatting: \<^verbatim>\<open>%d\<close>, and the fields of \<^verbatim>\<open>Time.Format\<close>\<close>

definition digit_char :: "nat \<Rightarrow> char" where
  "digit_char d = ''0123456789'' ! d"

fun nat_digits :: "nat \<Rightarrow> string" where
  "nat_digits n =
     (if n < 10 then [digit_char n] else nat_digits (n div 10) @ [digit_char (n mod 10)])"

declare nat_digits.simps [simp del]

definition Itoa :: "int \<Rightarrow> string" where
  "Itoa x = (if x < 0 then CHR ''-'' # nat_digits (nat (- x)) else nat_digits (nat x))"

definition zero_pad :: "nat \<Rightarrow> string \<Rightarrow> string" where
  "zero_pad w s = replicate (w - length s) (CHR ''0'') @ s"

text \<open>\<^verbatim>\<open>appendInt(b, x, width)\<close> of package time: a sign, then the digits padded with zeros.\<close>

definition appendInt :: "int \<Rightarrow> nat \<Rightarrow> string" where
  "appendInt x w =
     (if x < 0 then CHR ''-'' # zero_pad w (nat_digits (nat (- x)))
      else zero_pad w (nat_digits (nat x)))"

subsection \<open>Calendar days\<close>

text \<open>
  The proleptic Gregorian date (year, month, day) of the day that lies \<open>z0\<close> days after
  1970-01-01, which is what \<^verbatim>\<open>Time.Date\<close> computes from the seconds of a time.
\<close>

definition civil_from_days :: "int \<Rightarrow> int \<times> int \<times> int" where
  "civil_from_days z0 =
     (let z = z0 + 719468;
          era = z div 146097;
          doe = z mod 146097;
          yoe = (doe - doe div 1460 + doe div 36524 - doe div 146096) div 365;
          doy = doe - (365 * yoe + yoe div 4 - yoe div 100);
          mp = (5 * doy + 2) div 153;
          d = doy - (153 * mp + 2) div 5 + 1;
          m = (if mp < 10 then mp + 3 else mp - 9);
          y = yoe + era * 400 + (if m \<le> 2 then 1 else 0)
      in (y, m, d))"

text \<open>\<^verbatim>\<open>t.Format("2006-01-02")\<close> for a time on day number \<open>dn\<close> of its location.\<close>

definition format_date :: "int \<Rightarrow> string" where
  "format_date dn =
     (case civil_from_days dn of
        (y, m, d) \<Rightarrow> appendInt y 4 @ ''-'' @ appendInt m 2 @ ''-'' @ appendInt d 2)"

text \<open>
  \<^verbatim>\<open>time.Unix(sec, 0).Format("2006-01-02")\<close>. \<^verbatim>\<open>time.Unix\<close> returns a time in the
  process's \<^emph>\<open>local\<close> location, and \<^verbatim>\<open>Format\<close> prints a time in its own location.
  The local location is a parameter: \<open>loc\<close> is its offset east of UTC in seconds
  (a zone with one offset; the arithmetic is that of the integers, which is Go's for
  every timestamp whose year Go can represent).
\<close>

definition Unix_Format_date :: "int \<Rightarrow> int \<Rightarrow> string" where
  "Unix_Format_date loc sec = format_date ((sec + loc) div 86400)"

text \<open>The UTC calendar day that contains the instant \<open>sec\<close> (seconds since the epoch).\<close>

definition utc_day :: "int \<Rightarrow> string" where
  "utc_day sec = format_date (sec div 86400)"

subsection \<open>Strings, query values, \<^verbatim>\<open>strconv.Atoi\<close>\<close>

definition TrimPrefix :: "string \<Rightarrow> string \<Rightarrow> string" where
  "TrimPrefix s p = (if take (length p) s = p then drop (length p) s else s)"

text \<open>\<^verbatim>\<open>strings.Split(s, sep)\<close> for a separator of one character.\<close>

fun Split :: "string \<Rightarrow> char \<Rightarrow> string list" where
  "Split [] c = [[]]"
| "Split (x # xs) c =
     (if x = c then [] # Split xs c
      else (case Split xs c of [] \<Rightarrow> [[x]] | p # ps \<Rightarrow> (x # p) # ps))"

text \<open>
  \<^verbatim>\<open>url.Values.Get\<close>: the first value given for the key, the empty string when there
  is none. The query is the list of its key-value pairs in the order of the URL.
\<close>

definition Values_Get :: "(string \<times> string) list \<Rightarrow> string \<Rightarrow> string" where
  "Values_Get q key = (case map_of q key of None \<Rightarrow> [] | Some v \<Rightarrow> v)"

definition is_digit :: "char \<Rightarrow> bool" where
  "is_digit c = (48 \<le> (of_char c :: int) \<and> (of_char c :: int) \<le> 57)"

definition digits_value :: "string \<Rightarrow> int" where
  "digits_value ds = foldl (\<lambda>n c. n * 10 + (of_char c - 48)) 0 ds"

text \<open>
  \<^verbatim>\<open>strconv.Atoi\<close> on a 64-bit platform: an optional sign, then decimal digits only;
  \<open>None\<close> is the error the function returns for an empty string, for any other
  character (a syntax error) and for a value outside the range of \<^verbatim>\<open>int\<close> (a range
  error).
\<close>

definition Atoi :: "string \<Rightarrow> int option" where
  "Atoi s0 =
     (let neg = (s0 \<noteq> [] \<and> hd s0 = CHR ''-'');
          s = (if s0 \<noteq> [] \<and> (hd s0 = CHR ''-'' \<or> hd s0 = CHR ''+'') then tl s0 else s0)
      in if s = [] then None
         else if list_ex (\<lambda>c. \<not> is_digit c) s then None
         else (let n = digits_value s
               in if neg then (if 2 ^ 63 < n then None else Some (- n))
                  else (if 2 ^ 63 \<le> n then None else Some n)))"

section \<open>The API server\<close>

subsection \<open>Data\<close>

record TopKResult =
  SongID :: string
  ListenCount :: int64
  Rank :: int

record TopKResponse =
  UserID :: string
  Days :: int
  K :: int
  Results :: "TopKResult list"
  Cached :: bool

record Request =
  Method :: string
  Path :: string
  Query :: "(string \<times> string) list"

text \<open>
  What the handler writes: the status, the \<^verbatim>\<open>X-Cache\<close> header when it is set, and the
  body. A JSON body is represented by the response value that \<^verbatim>\<open>json.Marshal\<close>
  encodes; the cache stores the same representation of the bytes.
\<close>

datatype body = Text string | Json TopKResponse

record Response =
  status :: int
  x_cache :: "string option"
  content :: body

text \<open>
  An entry of the Redis cache: the stored bytes and the instant the key expires,
  \<open>None\<close> for a key without expiry.
\<close>

type_synonym cache = "string \<rightharpoonup> (TopKResponse \<times> int option)"

type_synonym songCount = "string \<times> int64"

text \<open>
  Everything outside the process that a request depends on: the clock (seconds since
  the epoch), the configured TTL in seconds, the answer of Cassandra to the query for
  a (user, day) partition (the rows the iterator scans, and whether \<^verbatim>\<open>iter.Close\<close>
  reports an error), the order in which \<^verbatim>\<open>range\<close> visits the entries of the Go map,
  the library's \<^verbatim>\<open>sort.Slice\<close>, and whether the two Redis commands fail.
\<close>

record api_env =
  now :: int
  cacheTTL :: int
  select :: "string \<Rightarrow> string \<Rightarrow> songCount list \<times> bool"
  range_map :: "songCount list \<Rightarrow> songCount list"
  sort_Slice :: "(songCount \<Rightarrow> songCount \<Rightarrow> bool) \<Rightarrow> songCount list \<Rightarrow> songCount list"
  get_fails :: bool
  set_fails :: bool

subsection \<open>\<^verbatim>\<open>getQueryInt\<close>\<close>

definition getQueryInt :: "Request \<Rightarrow> string \<Rightarrow> int \<Rightarrow> int" where
  "getQueryInt r key defaultVal =
     (let val = Values_Get (Query r) key
      in if val = [] then defaultVal
         else (case Atoi val of None \<Rightarrow> defaultVal | Some i \<Rightarrow> i))"

subsection \<open>\<^verbatim>\<open>computeTopK\<close>\<close>

text \<open>
  \<^verbatim>\<open>today := time.Now().UTC().Truncate(24 * time.Hour)\<close>, then for each \<open>i\<close> below
  \<open>days\<close> the day \<^verbatim>\<open>today.AddDate(0, 0, -i)\<close> printed as a date. All in UTC.
\<close>

definition Truncate_24h :: "int \<Rightarrow> int" where
  "Truncate_24h t = t - t mod 86400"

definition dayList :: "int \<Rightarrow> int \<Rightarrow> string list" where
  "dayList t days =
     map (\<lambda>i. format_date ((Truncate_24h t - 86400 * int i) div 86400)) [0..<nat days]"

text \<open>
  A Go map from keys to \<^verbatim>\<open>int64\<close> is a list of entries with distinct keys.
  \<^verbatim>\<open>m[key] += c\<close> adds to the entry of the key, or creates it from the zero value.
\<close>

fun add_count :: "'k \<Rightarrow> int64 \<Rightarrow> ('k \<times> int64) list \<Rightarrow> ('k \<times> int64) list" where
  "add_count k c [] = [(k, 0 + c)]"
| "add_count k c ((k', v) # m) =
     (if k' = k then (k', v + c) # m else (k', v) # add_count k c m)"

text \<open>The loop \<^verbatim>\<open>for iter.Scan(&songID, &count) { songCounts[songID] += count }\<close>.\<close>

fun scan_rows :: "songCount list \<Rightarrow> songCount list \<Rightarrow> songCount list" where
  "scan_rows m [] = m"
| "scan_rows m ((s, c) # rs) = scan_rows (add_count s c m) rs"

text \<open>
  The loop over \<^verbatim>\<open>dayList\<close>: the first day whose query fails ends it with an error
  (the message names the day; the text of the wrapped error is left out).
\<close>

fun query_days ::
  "(string \<Rightarrow> string \<Rightarrow> songCount list \<times> bool) \<Rightarrow> string \<Rightarrow> string list \<Rightarrow>
     songCount list \<Rightarrow> string + songCount list" where
  "query_days sel userID [] m = Inr m"
| "query_days sel userID (day # ds) m =
     (case sel userID day of
        (rs, failed) \<Rightarrow>
          if failed then Inl (''query error for day '' @ day)
          else query_days sel userID ds (scan_rows m rs))"

text \<open>The comparison handed to \<^verbatim>\<open>sort.Slice\<close>: \<^verbatim>\<open>sorted[i].count > sorted[j].count\<close>.\<close>

definition less_count :: "songCount \<Rightarrow> songCount \<Rightarrow> bool" where
  "less_count a b = (sint (snd b) < sint (snd a))"

fun build_results :: "nat \<Rightarrow> songCount list \<Rightarrow> TopKResult list" where
  "build_results i [] = []"
| "build_results i ((s, c) # scs) =
     \<lparr>SongID = s, ListenCount = c, Rank = int i + 1\<rparr> # build_results (Suc i) scs"

definition computeTopK :: "api_env \<Rightarrow> string \<Rightarrow> int \<Rightarrow> int \<Rightarrow> string + TopKResult list" where
  "computeTopK env userID days k =
     (case query_days (select env) userID (dayList (now env) days) [] of
        Inl err \<Rightarrow> Inl err
      | Inr songCounts \<Rightarrow>
          (let sorted = sort_Slice env less_count (range_map env songCounts);
               sorted = (if k < int (length sorted) then take (nat k) sorted else sorted)
           in Inr (build_results 0 sorted)))"

subsection \<open>The cache and \<^verbatim>\<open>topKHandler\<close>\<close>

text \<open>
  \<^verbatim>\<open>redisClient.Get\<close> returns the bytes of a key that is stored and has not expired;
  \<open>None\<close> is any error, \<^verbatim>\<open>redis.Nil\<close> for a missing key included.
  \<^verbatim>\<open>redisClient.Set\<close> with a positive TTL stores the bytes with that expiry,
  otherwise without expiry; its error is dropped by the handler.
\<close>

definition redis_Get :: "api_env \<Rightarrow> cache \<Rightarrow> string \<Rightarrow> TopKResponse option" where
  "redis_Get env c key =
     (if get_fails env then None
      else (case c key of
              None \<Rightarrow> None
            | Some (v, None) \<Rightarrow> Some v
            | Some (v, Some expiry) \<Rightarrow> if now env < expiry then Some v else None))"

definition redis_Set :: "api_env \<Rightarrow> cache \<Rightarrow> string \<Rightarrow> TopKResponse \<Rightarrow> cache" where
  "redis_Set env c key v =
     (if set_fails env then c
      else c(key \<mapsto> (v, if 0 < cacheTTL env then Some (now env + cacheTTL env) else None)))"

definition cacheKey :: "string \<Rightarrow> int \<Rightarrow> int \<Rightarrow> string" where
  "cacheKey userID days k = ''topk:'' @ userID @ '':'' @ Itoa days @ '':'' @ Itoa k"

text \<open>
  The handler. Of the headers only \<^verbatim>\<open>X-Cache\<close> is kept. The branch for an error of
  \<^verbatim>\<open>json.Marshal\<close> is left out: the response holds strings and integers only, which
  always encode.
\<close>

definition http_Error :: "string \<Rightarrow> int \<Rightarrow> Response" where
  "http_Error msg code = \<lparr>status = code, x_cache = None, content = Text msg\<rparr>"

definition topKHandler :: "api_env \<Rightarrow> cache \<Rightarrow> Request \<Rightarrow> Response \<times> cache" where
  "topKHandler env c r =
     (if Method r \<noteq> ''GET'' then (http_Error ''method not allowed'' 405, c)
      else
        (let parts = Split (TrimPrefix (Path r) ''/users/'') (CHR ''/'')
         in if length parts \<noteq> 2 \<or> parts ! 1 \<noteq> ''topk''
            then (http_Error ''invalid path, expected /users/{user_id}/topk'' 400, c)
            else
              (let userID = parts ! 0;
                   days = getQueryInt r ''days'' 7;
                   k = getQueryInt r ''k'' 10
               in if days < 1 \<or> 30 < days then (http_Error ''days must be 1-30'' 400, c)
                  else if k < 1 \<or> 100 < k then (http_Error ''k must be 1-100'' 400, c)
                  else
                    (case redis_Get env c (cacheKey userID days k) of
                       Some cached \<Rightarrow>
                         (\<lparr>status = 200, x_cache = Some ''HIT'', content = Json cached\<rparr>, c)
                     | None \<Rightarrow>
                         (case computeTopK env userID days k of
                            Inl err \<Rightarrow> (http_Error ''internal error'' 500, c)
                          | Inr results \<Rightarrow>
                              (let response = \<lparr>UserID = userID, Days = days, K = k,
                                                Results = results, Cached = False\<rparr>
                               in (\<lparr>status = 200, x_cache = Some ''MISS'',
                                    content = Json response\<rparr>,
                                   redis_Set env c (cacheKey userID days k) response)))))))"

text \<open>
  The insertion sort that \<^verbatim>\<open>sort.Slice\<close> runs on a short slice (of at most twelve
  elements in Go 1.22, the version that \<^verbatim>\<open>go.mod\<close> names): each element in turn moves
  left past every predecessor it is less than. \<open>sift\<close> is the inner loop, on the sorted
  prefix read from its last element. It is the concrete sort of the examples below.
\<close>

fun sift :: "('a \<Rightarrow> 'a \<Rightarrow> bool) \<Rightarrow> 'a \<Rightarrow> 'a list \<Rightarrow> 'a list" where
  "sift lt x [] = [x]"
| "sift lt x (y # ys) = (if lt x y then y # sift lt x ys else x # y # ys)"

definition insertionSort :: "('a \<Rightarrow> 'a \<Rightarrow> bool) \<Rightarrow> 'a list \<Rightarrow> 'a list" where
  "insertionSort lt xs = rev (foldl (\<lambda>p x. sift lt x p) [] xs)"

subsection \<open>What the environment may do, and what the claims speak of\<close>

text \<open>
  \<^verbatim>\<open>range\<close> over a Go map visits every entry once, in an order of the runtime's choice;
  \<^verbatim>\<open>sort.Slice\<close> returns a permutation in which no element is less than one before it,
  and promises nothing on the order of elements that compare equal.
\<close>

definition range_contract :: "(songCount list \<Rightarrow> songCount list) \<Rightarrow> bool" where
  "range_contract rng = (\<forall>m. mset (rng m) = mset m)"

definition sort_contract ::
  "((songCount \<Rightarrow> songCount \<Rightarrow> bool) \<Rightarrow> songCount list \<Rightarrow> songCount list) \<Rightarrow> bool" where
  "sort_contract srt =
     (\<forall>xs. mset (srt less_count xs) = mset xs \<and>
           sorted_wrt (\<lambda>a b. \<not> less_count b a) (srt less_count xs))"

text \<open>The count stored for a song in the rows of one (user, day) partition.\<close>

definition row_total :: "songCount list \<Rightarrow> string \<Rightarrow> int64" where
  "row_total rs s = sum_list (map snd (filter (\<lambda>r. fst r = s) rs))"

text \<open>
  The rows stored for the user on the UTC day that lies \<open>i\<close> days before today, the
  songs that have a row on one of the \<open>days\<close> most recent UTC days, and the sum of a
  song's counts over these days (in \<^verbatim>\<open>int64\<close> arithmetic). A day without rows adds
  nothing.
\<close>

definition day_rows :: "api_env \<Rightarrow> string \<Rightarrow> nat \<Rightarrow> songCount list" where
  "day_rows env u i = fst (select env u (utc_day (now env - 86400 * int i)))"

definition window_songs :: "api_env \<Rightarrow> string \<Rightarrow> int \<Rightarrow> string set" where
  "window_songs env u days = (\<Union>i \<in> {..<nat days}. fst ` set (day_rows env u i))"

definition window_total :: "api_env \<Rightarrow> string \<Rightarrow> int \<Rightarrow> string \<Rightarrow> int64" where
  "window_total env u days s = (\<Sum>i \<leftarrow> [0..<nat days]. row_total (day_rows env u i) s)"

definition queries_succeed :: "api_env \<Rightarrow> string \<Rightarrow> int \<Rightarrow> bool" where
  "queries_succeed env u days =
     list_all (\<lambda>i. \<not> snd (select env u (utc_day (now env - 86400 * int i)))) [0..<nat days]"

text \<open>The value of a Go map at a key: the zero value when the key has no entry.\<close>

definition lookup0 :: "('k \<times> int64) list \<Rightarrow> 'k \<Rightarrow> int64" where
  "lookup0 m k = (case map_of m k of None \<Rightarrow> 0 | Some v \<Rightarrow> v)"

text \<open>
  The user id the handler reads from a path, \<open>None\<close> when it answers "invalid path";
  and the value it uses for a query parameter.
\<close>

definition path_userID :: "string \<Rightarrow> string option" where
  "path_userID p =
     (case Split (TrimPrefix p ''/users/'') (CHR ''/'') of
        [u, t] \<Rightarrow> if t = ''topk'' then Some u else None
      | _ \<Rightarrow> None)"

definition param_value :: "Request \<Rightarrow> string \<Rightarrow> int \<Rightarrow> int" where
  "param_value r key defaultVal =
     (case Atoi (Values_Get (Query r) key) of None \<Rightarrow> defaultVal | Some i \<Rightarrow> i)"

text \<open>What the handler does with a request that passes its checks.\<close>

definition serve :: "api_env \<Rightarrow> cache \<Rightarrow> string \<Rightarrow> int \<Rightarrow> int \<Rightarrow> Response \<times> cache" where
  "serve env c u d k =
     (case redis_Get env c (cacheKey u d k) of
        Some cached \<Rightarrow> (\<lparr>status = 200, x_cache = Some ''HIT'', content = Json cached\<rparr>, c)
      | None \<Rightarrow>
          (case computeTopK env u d k of
             Inl err \<Rightarrow> (http_Error ''internal error'' 500, c)
           | Inr results \<Rightarrow>
               (\<lparr>status = 200, x_cache = Some ''MISS'',
                 content = Json \<lparr>UserID = u, Days = d, K = k, Results = results, Cached = False\<rparr>\<rparr>,
                redis_Set env c (cacheKey u d k)
                  \<lparr>UserID = u, Days = d, K = k, Results = results, Cached = False\<rparr>)))"

section \<open>The aggregator\<close>

subsection \<open>Data\<close>

record ListenEvent =
  EventID :: string
  event_UserID :: string
  event_SongID :: string
  Provider :: string
  ListenedAt :: int64

record AggregateKey =
  key_UserID :: string
  Day :: string
  key_SongID :: string

text \<open>The fields of a \<^verbatim>\<open>kafka.Message\<close> that the aggregator reads.\<close>

record Message =
  Partition :: int
  Offset :: int
  Value :: string

text \<open>
  The struct \<^verbatim>\<open>Aggregator\<close> without its three clients. The map \<^verbatim>\<open>counts\<close> is a list
  of entries with distinct keys, as in the API server.
\<close>

record Aggregator =
  counts :: "(AggregateKey \<times> int64) list"
  lastMsg :: Message
  hasMsg :: bool
  dedupCount :: int64

text \<open>
  The aggregator together with the three services it talks to: the Bloom filters of
  Redis (for each key the set of bit positions that are set), the counter column
  \<^verbatim>\<open>listen_count\<close> of the table \<^verbatim>\<open>user_daily_topk\<close> (a row that does not exist counts
  0; the store's counter is taken as a mathematical integer), and the offset committed
  for each partition of the topic.
\<close>

record World =
  agg :: Aggregator
  redis :: "string \<rightharpoonup> nat set"
  cassandra :: "AggregateKey \<Rightarrow> int"
  committed :: "int \<rightharpoonup> int"

text \<open>
  What is fixed for a process: the offset of its local time zone east of UTC in
  seconds, the bit positions that RedisBloom derives from an item, and the decoder
  \<^verbatim>\<open>json.Unmarshal\<close> into a \<^verbatim>\<open>ListenEvent\<close> (\<open>None\<close> is its error).
\<close>

record agg_env =
  Local :: int
  bloom_bits :: "string \<Rightarrow> nat list"
  Unmarshal :: "string \<Rightarrow> ListenEvent option"

text \<open>
  How the two Redis commands of one dedup check end: whether \<^verbatim>\<open>BF.RESERVE\<close> fails for
  a reason other than an existing filter, and whether \<^verbatim>\<open>BF.ADD\<close> answers with an
  integer, with a boolean, with a value of another type, or fails.
\<close>

datatype reply = IntReply | BoolReply | OtherReply | NoReply

record redis_outcome =
  reserve_fails :: bool
  add_reply :: reply

text \<open>How the writes of one flush end: which keys' updates fail, and whether the commit fails.\<close>

record flush_outcome =
  write_fails :: "AggregateKey \<Rightarrow> bool"
  commit_fails :: bool

subsection \<open>The Bloom filter commands\<close>

definition bloomKey :: "string \<Rightarrow> string" where
  "bloomKey day = ''dedup:'' @ day"

datatype redis_error = ItemExists | CommandFailed

datatype redis_value = Int64 int64 | Bool bool | Other

text \<open>\<^verbatim>\<open>BF.RESERVE\<close> creates an empty filter, and is an error when the key exists.\<close>

definition BF_RESERVE ::
  "bool \<Rightarrow> (string \<rightharpoonup> nat set) \<Rightarrow> string \<Rightarrow> redis_error option \<times> (string \<rightharpoonup> nat set)" where
  "BF_RESERVE fails R key =
     (if fails then (Some CommandFailed, R)
      else (case R key of
              Some bits \<Rightarrow> (Some ItemExists, R)
            | None \<Rightarrow> (None, R(key \<mapsto> {}))))"

text \<open>
  \<^verbatim>\<open>BF.ADD\<close> sets the bits of the item in the filter of the key, which it creates when
  missing, and tells whether one of them was not set before. A command that fails
  leaves the filter as it was.
\<close>

definition BF_ADD ::
  "(string \<Rightarrow> nat list) \<Rightarrow> reply \<Rightarrow> (string \<rightharpoonup> nat set) \<Rightarrow> string \<Rightarrow> string \<Rightarrow>
     redis_value option \<times> (string \<rightharpoonup> nat set)" where
  "BF_ADD h rep R key item =
     (if rep = NoReply then (None, R)
      else
        (let bits = (case R key of None \<Rightarrow> {} | Some b \<Rightarrow> b);
             added = (\<not> set (h item) \<subseteq> bits);
             R' = R(key \<mapsto> bits \<union> set (h item))
         in (Some (case rep of
                     IntReply \<Rightarrow> Int64 (if added then 1 else 0)
                   | BoolReply \<Rightarrow> Bool added
                   | _ \<Rightarrow> Other),
             R')))"

text \<open>
  \<^verbatim>\<open>ensureBloomFilter\<close>: the error "item exists" is ignored. (The TTL that is set on
  a new filter is not modelled: the claims speak of events within the window.)
\<close>

definition ensureBloomFilter ::
  "bool \<Rightarrow> (string \<rightharpoonup> nat set) \<Rightarrow> string \<Rightarrow> redis_error option \<times> (string \<rightharpoonup> nat set)" where
  "ensureBloomFilter fails R day =
     (case BF_RESERVE fails R (bloomKey day) of
        (Some err, R') \<Rightarrow> if err \<noteq> ItemExists then (Some err, R') else (None, R')
      | (None, R') \<Rightarrow> (None, R'))"

datatype bloom_error = RedisError | UnexpectedType

text \<open>
  \<^verbatim>\<open>checkAndAddToBloom\<close>: \<open>Inr True\<close> when the item was already seen (or possibly
  seen), \<open>Inl\<close> for the error. A failure of \<^verbatim>\<open>ensureBloomFilter\<close> is only logged.
\<close>

definition checkAndAddToBloom ::
  "agg_env \<Rightarrow> redis_outcome \<Rightarrow> (string \<rightharpoonup> nat set) \<Rightarrow> string \<Rightarrow> string \<Rightarrow>
     (bloom_error + bool) \<times> (string \<rightharpoonup> nat set)" where
  "checkAndAddToBloom env out R day eventID =
     (let key = bloomKey day;
          R1 = snd (ensureBloomFilter (reserve_fails out) R day)
      in (case BF_ADD (bloom_bits env) (add_reply out) R1 key eventID of
            (None, R2) \<Rightarrow> (Inl RedisError, R2)
          | (Some (Int64 v), R2) \<Rightarrow> (Inr (v = 0), R2)
          | (Some (Bool v), R2) \<Rightarrow> (Inr (\<not> v), R2)
          | (Some Other, R2) \<Rightarrow> (Inl UnexpectedType, R2)))"

subsection \<open>\<^verbatim>\<open>accumulate\<close> and \<^verbatim>\<open>flush\<close>\<close>

text \<open>
  \<^verbatim>\<open>accumulate\<close>: an event whose check says "duplicate" is skipped; an event whose
  check fails is counted like a new one.
\<close>

definition accumulate :: "agg_env \<Rightarrow> redis_outcome \<Rightarrow> ListenEvent \<Rightarrow> Message \<Rightarrow> World \<Rightarrow> World" where
  "accumulate env out event msg w =
     (let day = Unix_Format_date (Local env) (sint (ListenedAt event));
          res = checkAndAddToBloom env out (redis w) day (EventID event);
          a = agg w
      in if fst res = Inr True
         then w\<lparr>redis := snd res,
                agg := a\<lparr>dedupCount := dedupCount a + 1, lastMsg := msg, hasMsg := True\<rparr>\<rparr>
         else w\<lparr>redis := snd res,
                agg := a\<lparr>counts := add_count \<lparr>key_UserID = event_UserID event, Day = day,
                                                key_SongID = event_SongID event\<rparr> 1 (counts a),
                         lastMsg := msg, hasMsg := True\<rparr>\<rparr>)"

text \<open>
  The loop of \<^verbatim>\<open>flush\<close> over the drained map: an update that fails is logged and the
  loop goes on with the next key.
\<close>

fun write_counts ::
  "(AggregateKey \<Rightarrow> bool) \<Rightarrow> (AggregateKey \<times> int64) list \<Rightarrow> (AggregateKey \<Rightarrow> int) \<Rightarrow>
     (AggregateKey \<Rightarrow> int)" where
  "write_counts fails [] C = C"
| "write_counts fails ((key, delta) # cs) C =
     write_counts fails cs (if fails key then C else C(key := C key + sint delta))"

text \<open>\<^verbatim>\<open>reader.CommitMessages(ctx, msg)\<close> commits the offset after the message's.\<close>

definition CommitMessages :: "bool \<Rightarrow> Message \<Rightarrow> (int \<rightharpoonup> int) \<Rightarrow> (int \<rightharpoonup> int)" where
  "CommitMessages fails msg cm = (if fails then cm else cm(Partition msg \<mapsto> Offset msg + 1))"

definition flush :: "flush_outcome \<Rightarrow> World \<Rightarrow> World" where
  "flush out w =
     (let a = agg w
      in if counts a = [] \<and> \<not> hasMsg a then w
         else
           (let w1 = w\<lparr>agg := a\<lparr>counts := [], hasMsg := False, dedupCount := 0\<rparr>\<rparr>;
                w2 = w1\<lparr>cassandra := write_counts (write_fails out) (counts a) (cassandra w1)\<rparr>
            in if hasMsg a
               then w2\<lparr>committed := CommitMessages (commit_fails out) (lastMsg a) (committed w2)\<rparr>
               else w2))"

subsection \<open>The loop of \<^verbatim>\<open>main\<close>\<close>

text \<open>
  One turn of the loop that processes messages: a fetch that fails is logged; a
  message whose payload does not decode is logged and committed at once; any other is
  accumulated. The result of the commit is dropped.
\<close>

datatype fetch = FetchError | Fetched Message

definition main_iteration :: "agg_env \<Rightarrow> fetch \<Rightarrow> redis_outcome \<Rightarrow> bool \<Rightarrow> World \<Rightarrow> World" where
  "main_iteration env f out cfails w =
     (case f of
        FetchError \<Rightarrow> w
      | Fetched msg \<Rightarrow>
          (case Unmarshal env (Value msg) of
             None \<Rightarrow> w\<lparr>committed := CommitMessages cfails msg (committed w)\<rparr>
           | Some event \<Rightarrow> accumulate env out event msg w))"

text \<open>
  A run of the process: turns of the message loop and flushes (of the ticker or of
  the shutdown handler), in the order in which they take the mutex. A turn is one
  step: the dedup check that \<^verbatim>\<open>accumulate\<close> makes before it takes the mutex is not
  interleaved with a flush.
\<close>

datatype step = Turn fetch redis_outcome bool | Flush flush_outcome

fun do_step :: "agg_env \<Rightarrow> World \<Rightarrow> step \<Rightarrow> World" where
  "do_step env w (Turn f out cfails) = main_iteration env f out cfails w"
| "do_step env w (Flush out) = flush out w"

definition run :: "agg_env \<Rightarrow> step list \<Rightarrow> World \<Rightarrow> World" where
  "run env steps w = foldl (do_step env) w steps"

text \<open>The aggregator as \<^verbatim>\<open>main\<close> creates it, and a process that restarts after a crash.\<close>

definition new_Aggregator :: Aggregator where
  "new_Aggregator =
     \<lparr>counts = [], lastMsg = \<lparr>Partition = 0, Offset = 0, Value = []\<rparr>, hasMsg = False,
      dedupCount = 0\<rparr>"

definition restart :: "World \<Rightarrow> World" where
  "restart w = w\<lparr>agg := new_Aggregator\<rparr>"

subsection \<open>What the claims speak of\<close>

text \<open>The day and the key under which an event is counted.\<close>

definition event_day :: "agg_env \<Rightarrow> ListenEvent \<Rightarrow> string" where
  "event_day env e = Unix_Format_date (Local env) (sint (ListenedAt e))"

definition key_of :: "agg_env \<Rightarrow> ListenEvent \<Rightarrow> AggregateKey" where
  "key_of env e =
     \<lparr>key_UserID = event_UserID e, Day = event_day env e, key_SongID = event_SongID e\<rparr>"

text \<open>
  A sequence of deliveries given to \<^verbatim>\<open>accumulate\<close>, each with the outcome of its
  dedup check.
\<close>

type_synonym delivery = "ListenEvent \<times> Message \<times> redis_outcome"

definition accumulate_all :: "agg_env \<Rightarrow> delivery list \<Rightarrow> World \<Rightarrow> World" where
  "accumulate_all env ds w = foldl (\<lambda>w (e, m, out). accumulate env out e m w) w ds"

text \<open>The dedup check of a delivery is answered (with an integer or a boolean).\<close>

definition answered :: "delivery \<Rightarrow> bool" where
  "answered d = (add_reply (snd (snd d)) = IntReply \<or> add_reply (snd (snd d)) = BoolReply)"

text \<open>
  The deduplicated sequence: of the events with the same event id on the same day, only
  the first delivered stays. The events of \<open>hist\<close> are those delivered before the
  sequence starts (none, for a sequence given to fresh filters): an event of the
  sequence whose id and day are those of an event of \<open>hist\<close> is a duplicate too.
\<close>

definition dedup_id :: "agg_env \<Rightarrow> ListenEvent \<Rightarrow> string \<times> string" where
  "dedup_id env e = (event_day env e, EventID e)"

fun dedup_first :: "('a \<Rightarrow> 'b) \<Rightarrow> 'a list \<Rightarrow> 'a list" where
  "dedup_first f [] = []"
| "dedup_first f (x # xs) = x # dedup_first f (filter (\<lambda>y. f y \<noteq> f x) xs)"

definition deduplicated_count ::
  "agg_env \<Rightarrow> ListenEvent list \<Rightarrow> ListenEvent list \<Rightarrow> AggregateKey \<Rightarrow> nat" where
  "deduplicated_count env hist es key =
     length (filter (\<lambda>e. key_of env e = key)
       (dedup_first (dedup_id env)
          (filter (\<lambda>e. dedup_id env e \<notin> set (map (dedup_id env) hist)) es)))"

text \<open>The bits of the filter of a day, and the test that \<^verbatim>\<open>BF.ADD\<close> makes.\<close>

definition filter_bits :: "(string \<rightharpoonup> nat set) \<Rightarrow> string \<Rightarrow> nat set" where
  "filter_bits R day = (case R (bloomKey day) of None \<Rightarrow> {} | Some b \<Rightarrow> b)"

definition reported_present :: "agg_env \<Rightarrow> (string \<rightharpoonup> nat set) \<Rightarrow> ListenEvent \<Rightarrow> bool" where
  "reported_present env R e = (set (bloom_bits env (EventID e)) \<subseteq> filter_bits R (event_day env e))"

definition add_bits :: "agg_env \<Rightarrow> (string \<rightharpoonup> nat set) \<Rightarrow> ListenEvent \<Rightarrow> (string \<rightharpoonup> nat set)" where
  "add_bits env R e =
     R(bloomKey (event_day env e) \<mapsto>
         filter_bits R (event_day env e) \<union> set (bloom_bits env (EventID e)))"

text \<open>
  The false positives of a sequence of events: the events that the filter reports
  present although no event with their id and day was delivered before them. \<open>seen\<close>
  lists the ids delivered so far.
\<close>

fun false_positives ::
  "agg_env \<Rightarrow> (string \<rightharpoonup> nat set) \<Rightarrow> (string \<times> string) list \<Rightarrow> ListenEvent list \<Rightarrow>
     ListenEvent list" where
  "false_positives env R seen [] = []"
| "false_positives env R seen (e # es) =
     (if reported_present env R e \<and> dedup_id env e \<notin> set seen then [e] else []) @
     false_positives env (add_bits env R e) (dedup_id env e # seen) es"

text \<open>
  The false positives for a key of a sequence that is delivered when the filters are
  \<open>R\<close> and the events of \<open>hist\<close> have been delivered before.
\<close>

definition false_positive_count ::
  "agg_env \<Rightarrow> (string \<rightharpoonup> nat set) \<Rightarrow> ListenEvent list \<Rightarrow> ListenEvent list \<Rightarrow> AggregateKey \<Rightarrow>
     nat" where
  "false_positive_count env R hist es key =
     length (filter (\<lambda>e. key_of env e = key)
       (false_positives env R (map (dedup_id env) hist) es))"

text \<open>No pending delta, read as an unsigned number, exceeds \<open>n\<close>.\<close>

definition pending_le :: "nat \<Rightarrow> World \<Rightarrow> bool" where
  "pending_le n w = (\<forall>v \<in> snd ` set (counts (agg w)). unat v \<le> n)"


text \<open>
  The events of a sequence that the filter does not report present when they are
  delivered, the filter being \<open>R\<close> at the start: the events that get counted when every
  check is answered.
\<close>

fun counted :: "agg_env \<Rightarrow> (string \<rightharpoonup> nat set) \<Rightarrow> ListenEvent list \<Rightarrow> ListenEvent list" where
  "counted env R [] = []"
| "counted env R (e # es) =
     (if reported_present env R e then [] else [e]) @ counted env (add_bits env R e) es"

text \<open>
  The event that a step of a run hands to \<^verbatim>\<open>accumulate\<close> (a turn whose fetch fails or
  whose payload does not decode hands none, nor does a flush), and the events delivered
  in a run, in their order.
\<close>

fun step_events :: "agg_env \<Rightarrow> step \<Rightarrow> ListenEvent list" where
  "step_events env (Turn (Fetched msg) out cfails) =
     (case Unmarshal env (Value msg) of None \<Rightarrow> [] | Some event \<Rightarrow> [event])"
| "step_events env (Turn FetchError out cfails) = []"
| "step_events env (Flush out) = []"

definition delivered :: "agg_env \<Rightarrow> step list \<Rightarrow> ListenEvent list" where
  "delivered env steps = concat (map (step_events env) steps)"

text \<open>
  A step on which the stored count of a key can rely: when the turn delivers an event,
  its dedup check is answered; when the step is a flush, its write for the key does
  not fail.
\<close>

fun reliable :: "agg_env \<Rightarrow> AggregateKey \<Rightarrow> step \<Rightarrow> bool" where
  "reliable env key (Turn f out cfails) =
     (step_events env (Turn f out cfails) = [] \<or>
      add_reply out = IntReply \<or> add_reply out = BoolReply)"
| "reliable env key (Flush out) = (\<not> write_fails out key)"

section \<open>Example environments\<close>

text \<open>
  Scenario A of the specification: on 2026-01-29 (the clock reads 23:30 UTC) user
  \<open>u1\<close> has the rows a = 5 and b = 3 for today and a = 2 for the day before.
  The map is visited in insertion order and the sort is the insertion sort.
\<close>

definition scenarioA :: api_env where
  "scenarioA =
     \<lparr>now = 1769729400, cacheTTL = 3600,
      select = (\<lambda>u d. if u = ''u1'' \<and> d = ''2026-01-29'' then ([(''a'', 5), (''b'', 3)], False)
                       else if u = ''u1'' \<and> d = ''2026-01-28'' then ([(''a'', 2)], False)
                       else ([], False)),
      range_map = (\<lambda>m. m), sort_Slice = insertionSort,
      get_fails = False, set_fails = False\<rparr>"

text \<open>
  Scenario B: two songs with the same count, and a run in which \<^verbatim>\<open>range\<close> visits the
  map in the reverse order.
\<close>

definition scenarioB :: api_env where
  "scenarioB =
     \<lparr>now = 1769729400, cacheTTL = 3600,
      select = (\<lambda>u d. if u = ''u1'' \<and> d = ''2026-01-29'' then ([(''a'', 3), (''b'', 3)], False)
                       else ([], False)),
      range_map = rev, sort_Slice = insertionSort,
      get_fails = False, set_fails = False\<rparr>"

text \<open>A GET request for a path and a list of query parameters.\<close>

definition topk_request :: "string \<Rightarrow> (string \<times> string) list \<Rightarrow> Request" where
  "topk_request p q = \<lparr>Method = ''GET'', Path = p, Query = q\<rparr>"

text \<open>
  An aggregator whose local time zone is UTC, with a toy Bloom filter of one bit per
  item (the bit at the length of the id) and a decoder that knows one payload; and the
  same aggregator in a process whose local time zone is five and a half hours east of
  UTC.
\<close>

definition event1 :: ListenEvent where
  "event1 = \<lparr>EventID = ''e1'', event_UserID = ''u1'', event_SongID = ''a'',
             Provider = ''spotify'', ListenedAt = 1769729400\<rparr>"

definition utc_env :: agg_env where
  "utc_env = \<lparr>Local = 0, bloom_bits = (\<lambda>x. [length x]),
              Unmarshal = (\<lambda>v. if v = ''listen e1'' then Some event1 else None)\<rparr>"

definition east_env :: agg_env where
  "east_env = utc_env\<lparr>Local := 19800\<rparr>"

definition key1 :: AggregateKey where
  "key1 = \<lparr>key_UserID = ''u1'', Day = ''2026-01-29'', key_SongID = ''a''\<rparr>"

definition listen_msg :: "int \<Rightarrow> Message" where
  "listen_msg off = \<lparr>Partition = 0, Offset = off, Value = ''listen e1''\<rparr>"

definition garbage_msg :: "int \<Rightarrow> Message" where
  "garbage_msg off = \<lparr>Partition = 0, Offset = off, Value = ''garbage''\<rparr>"

definition redis_up :: redis_outcome where
  "redis_up = \<lparr>reserve_fails = False, add_reply = IntReply\<rparr>"

definition redis_down :: redis_outcome where
  "redis_down = \<lparr>reserve_fails = True, add_reply = NoReply\<rparr>"

definition writes_succeed :: flush_outcome where
  "writes_succeed = \<lparr>write_fails = (\<lambda>key. False), commit_fails = False\<rparr>"

definition writes_fail :: flush_outcome where
  "writes_fail = \<lparr>write_fails = (\<lambda>key. True), commit_fails = False\<rparr>"

definition world0 :: World where
  "world0 = \<lparr>agg = new_Aggregator, redis = Map.empty, cassandra = (\<lambda>key. 0),
             committed = Map.empty\<rparr>"

text \<open>A second event, whose id sets the same bit of the toy filter as the first.\<close>

definition event2 :: ListenEvent where
  "event2 = event1\<lparr>EventID := ''e2''\<rparr>"


text \<open>
  Two more events, whose ids set other bits of the toy filter; an aggregator whose
  decoder knows the four events; and the state in which the filter of the day holds
  the id of the first event and the stored count of its key is 1, as after a first
  delivery of that event and a flush.
\<close>

definition event3 :: ListenEvent where
  "event3 = event1\<lparr>EventID := ''e10''\<rparr>"

definition event4 :: ListenEvent where
  "event4 = event1\<lparr>EventID := ''e100''\<rparr>"

definition dedup_env :: agg_env where
  "dedup_env =
     utc_env\<lparr>Unmarshal := (\<lambda>v. if v = ''listen e2'' then Some event2
                                else if v = ''listen e10'' then Some event3
                                else if v = ''listen e100'' then Some event4
                                else Unmarshal utc_env v)\<rparr>"

definition payload_msg :: "int \<Rightarrow> string \<Rightarrow> Message" where
  "payload_msg off v = \<lparr>Partition = 0, Offset = off, Value = v\<rparr>"

definition world1 :: World where
  "world1 =
     world0\<lparr>redis := [bloomKey ''2026-01-29'' \<mapsto> {2}],
            cassandra := (\<lambda>key. if key = key1 then 1 else 0)\<rparr>"

text \<open>
  A run in two flush cycles: the first event again, the third event, a flush, a payload
  that does not decode and a fetch that fails (both while Redis is down), the second
  event, the third event again, the fourth event.
\<close>

definition dedup_run :: "step list" where
  "dedup_run =
     [Turn (Fetched (payload_msg 6 ''listen e1'')) redis_up False,
      Turn (Fetched (payload_msg 7 ''listen e10'')) redis_up False,
      Flush writes_succeed,
      Turn (Fetched (payload_msg 8 ''garbage'')) redis_down False,
      Turn FetchError redis_down False,
      Turn (Fetched (payload_msg 9 ''listen e2'')) redis_up False,
      Turn (Fetched (payload_msg 10 ''listen e10'')) redis_up False,
      Turn (Fetched (payload_msg 11 ''listen e100'')) redis_up False]"
section \<open>Properties of Go maps as entry lists\<close>

lemma lookup0_add_count:
  "lookup0 (add_count k c m) k' = (if k' = k then lookup0 m k + c else lookup0 m k')"
  by (induction m) (auto simp: lookup0_def)

lemma keys_add_count: "fst ` set (add_count k c m) = insert k (fst ` set m)"
proof (induction m)
  case Nil
  show ?case by simp
next
  case (Cons a m)
  obtain k' v where a: "a = (k', v)" by (cases a)
  show ?case
  proof (cases "k' = k")
    case True
    with a show ?thesis by simp
  next
    case False
    with a Cons.IH show ?thesis by (simp add: insert_commute)
  qed
qed

lemma distinct_add_count: "distinct (map fst m) \<Longrightarrow> distinct (map fst (add_count k c m))"
proof (induction m)
  case Nil
  then show ?case by simp
next
  case (Cons a m)
  obtain k' v where a: "a = (k', v)" by (cases a)
  have "fst ` set (add_count k c m) = insert k (fst ` set m)" by (rule keys_add_count)
  with Cons a show ?case by auto
qed

lemma lookup0_entry: "distinct (map fst m) \<Longrightarrow> (s, c) \<in> set m \<Longrightarrow> lookup0 m s = c"
  by (simp add: lookup0_def)

lemma lookup0_Nil: "lookup0 [] k = 0"
  by (simp add: lookup0_def)

section \<open>Dates of the examples\<close>

lemma format_date_20482: "format_date 20482 = ''2026-01-29''"
  by (simp add: Let_def format_date_def civil_from_days_def appendInt_def zero_pad_def
      nat_digits.simps digit_char_def cong: let_weak_cong)

lemma format_date_20481: "format_date 20481 = ''2026-01-28''"
  by (simp add: Let_def format_date_def civil_from_days_def appendInt_def zero_pad_def
      nat_digits.simps digit_char_def cong: let_weak_cong)

lemma format_date_20480: "format_date 20480 = ''2026-01-27''"
  by (simp add: Let_def format_date_def civil_from_days_def appendInt_def zero_pad_def
      nat_digits.simps digit_char_def cong: let_weak_cong)

lemma format_date_20479: "format_date 20479 = ''2026-01-26''"
  by (simp add: Let_def format_date_def civil_from_days_def appendInt_def zero_pad_def
      nat_digits.simps digit_char_def cong: let_weak_cong)

lemma format_date_20478: "format_date 20478 = ''2026-01-25''"
  by (simp add: Let_def format_date_def civil_from_days_def appendInt_def zero_pad_def
      nat_digits.simps digit_char_def cong: let_weak_cong)

lemma format_date_20477: "format_date 20477 = ''2026-01-24''"
  by (simp add: Let_def format_date_def civil_from_days_def appendInt_def zero_pad_def
      nat_digits.simps digit_char_def cong: let_weak_cong)

lemma format_date_20476: "format_date 20476 = ''2026-01-23''"
  by (simp add: Let_def format_date_def civil_from_days_def appendInt_def zero_pad_def
      nat_digits.simps digit_char_def cong: let_weak_cong)

lemma format_date_20483: "format_date 20483 = ''2026-01-30''"
  by (simp add: Let_def format_date_def civil_from_days_def appendInt_def zero_pad_def
      nat_digits.simps digit_char_def cong: let_weak_cong)

section \<open>Properties of the API server\<close>

subsection \<open>Evaluation of the library functions\<close>

lemma Atoi_empty: "Atoi [] = None"
  by (simp add: Atoi_def)

lemma getQueryInt_param: "getQueryInt r key d = param_value r key d"
  by (simp add: getQueryInt_def param_value_def Atoi_def Let_def)

lemma lookup0_scan_rows:
  "lookup0 (scan_rows m rs) s = lookup0 m s + row_total rs s"
  by (induction m rs rule: scan_rows.induct) (auto simp: row_total_def lookup0_add_count)

lemma keys_scan_rows: "fst ` set (scan_rows m rs) = fst ` set m \<union> fst ` set rs"
  by (induction m rs rule: scan_rows.induct) (simp_all add: keys_add_count)

lemma distinct_scan_rows: "distinct (map fst m) \<Longrightarrow> distinct (map fst (scan_rows m rs))"
  by (induction m rs rule: scan_rows.induct) (auto simp: distinct_add_count)

subsection \<open>The map of counts and the sort\<close>

lemma Truncate_24h_div: "(Truncate_24h t - 86400 * int i) div 86400 = (t - 86400 * int i) div 86400"
proof -
  have "Truncate_24h t = 86400 * (t div 86400)"
    by (simp add: Truncate_24h_def minus_mod_eq_mult_div)
  then show ?thesis by simp
qed

lemma dayList_utc: "dayList t days = map (\<lambda>i. utc_day (t - 86400 * int i)) [0..<nat days]"
  by (simp add: dayList_def utc_day_def Truncate_24h_div)

lemma sift_mset: "mset (sift lt x p) = add_mset x (mset p)"
  by (induction p) auto

lemma less_count_asym: "less_count a b \<Longrightarrow> \<not> less_count b a"
  by (simp add: less_count_def)

lemma less_count_negtrans: "\<not> less_count a b \<Longrightarrow> \<not> less_count b c \<Longrightarrow> \<not> less_count a c"
  by (simp add: less_count_def)

lemma set_sift: "set (sift lt x p) = insert x (set p)"
  by (induction p) auto

lemma sift_sorted:
  "sorted_wrt (\<lambda>a b. \<not> less_count a b) p \<Longrightarrow> sorted_wrt (\<lambda>a b. \<not> less_count a b) (sift less_count x p)"
proof (induction p)
  case Nil
  then show ?case by simp
next
  case (Cons y ys)
  show ?case
  proof (cases "less_count x y")
    case True
    with Cons show ?thesis by (auto simp: set_sift dest: less_count_asym)
  next
    case False
    with Cons show ?thesis by (auto dest: less_count_negtrans)
  qed
qed

lemma foldl_sift_mset: "mset (foldl (\<lambda>p x. sift lt x p) p xs) = mset p + mset xs"
  by (induction xs arbitrary: p) (auto simp: sift_mset)

lemma foldl_sift_sorted:
  "sorted_wrt (\<lambda>a b. \<not> less_count a b) p \<Longrightarrow>
   sorted_wrt (\<lambda>a b. \<not> less_count a b) (foldl (\<lambda>p x. sift less_count x p) p xs)"
  by (induction xs arbitrary: p) (auto simp: sift_sorted)

lemma insertionSort_contract: "sort_contract insertionSort"
  unfolding sort_contract_def insertionSort_def
proof (intro allI conjI)
  fix xs :: "songCount list"
  show "mset (rev (foldl (\<lambda>p x. sift less_count x p) [] xs)) = mset xs"
    by (simp add: foldl_sift_mset)
  have "sorted_wrt (\<lambda>a b. \<not> less_count a b) (foldl (\<lambda>p x. sift less_count x p) [] xs)"
    by (rule foldl_sift_sorted) simp
  then show "sorted_wrt (\<lambda>a b. \<not> less_count b a) (rev (foldl (\<lambda>p x. sift less_count x p) [] xs))"
    by (simp add: sorted_wrt_rev)
qed

lemma query_days_ok:
  "list_all (\<lambda>d. \<not> snd (sel u d)) ds \<Longrightarrow>
   query_days sel u ds m = Inr (foldl (\<lambda>m d. scan_rows m (fst (sel u d))) m ds)"
  by (induction ds arbitrary: m) (auto split: prod.splits)

lemma lookup0_scan_days:
  "lookup0 (foldl (\<lambda>m d. scan_rows m (fst (sel u d))) m ds) s =
   lookup0 m s + (\<Sum>d \<leftarrow> ds. row_total (fst (sel u d)) s)"
  by (induction ds arbitrary: m) (simp_all add: lookup0_scan_rows add.assoc)

lemma keys_scan_days:
  "fst ` set (foldl (\<lambda>m d. scan_rows m (fst (sel u d))) m ds) =
   fst ` set m \<union> (\<Union>d \<in> set ds. fst ` set (fst (sel u d)))"
  by (induction ds arbitrary: m) (auto simp: keys_scan_rows)

lemma distinct_scan_days:
  "distinct (map fst m) \<Longrightarrow> distinct (map fst (foldl (\<lambda>m d. scan_rows m (fst (sel u d))) m ds))"
  by (induction ds arbitrary: m) (simp_all add: distinct_scan_rows)

lemma SongID_build_results: "map SongID (build_results i xs) = map fst xs"
  by (induction i xs rule: build_results.induct) simp_all

lemma ListenCount_build_results: "map ListenCount (build_results i xs) = map snd xs"
  by (induction i xs rule: build_results.induct) simp_all

lemma Rank_build_results: "map Rank (build_results i xs) = map (\<lambda>j. int j + 1) [i..<i + length xs]"
  by (induction i xs rule: build_results.induct) (simp_all add: upt_rec)

lemma length_build_results: "length (build_results i xs) = length xs"
  by (induction i xs rule: build_results.induct) simp_all

lemma set_build_results:
  "r \<in> set (build_results i xs) \<Longrightarrow> (SongID r, ListenCount r) \<in> set xs"
  by (induction i xs rule: build_results.induct) auto

lemma dayList_sum:
  "(\<Sum>d \<leftarrow> dayList (now env) days. row_total (fst (select env u d)) s) = window_total env u days s"
  by (simp add: dayList_utc window_total_def day_rows_def o_def)

lemma dayList_keys:
  "(\<Union>d \<in> set (dayList (now env) days). fst ` set (fst (select env u d))) = window_songs env u days"
  by (auto simp: dayList_utc window_songs_def day_rows_def)

lemma dayList_ok:
  "queries_succeed env u days \<Longrightarrow> list_all (\<lambda>d. \<not> snd (select env u d)) (dayList (now env) days)"
  by (simp add: queries_succeed_def dayList_utc list_all_iff)

text \<open>What the loop over the days leaves in the map \<open>songCounts\<close>.\<close>

lemma songCounts_spec:
  assumes "queries_succeed env u days"
  shows "\<exists>sc. query_days (select env) u (dayList (now env) days) [] = Inr sc \<and>
              distinct (map fst sc) \<and> fst ` set sc = window_songs env u days \<and>
              (\<forall>(s, c) \<in> set sc. c = window_total env u days s)"
proof -
  let ?sc = "foldl (\<lambda>m d. scan_rows m (fst (select env u d))) [] (dayList (now env) days)"
  have q: "query_days (select env) u (dayList (now env) days) [] = Inr ?sc"
    by (rule query_days_ok [where sel = "select env"]) (rule dayList_ok [OF assms])
  have d: "distinct (map fst ?sc)"
    by (rule distinct_scan_days) simp
  have k: "fst ` set ?sc = window_songs env u days"
    by (simp add: keys_scan_days dayList_keys)
  have t: "c = window_total env u days s" if "(s, c) \<in> set ?sc" for s c
  proof -
    have "lookup0 ?sc s = c" using d that by (rule lookup0_entry)
    moreover have "lookup0 ?sc s = window_total env u days s"
      by (simp add: lookup0_scan_days dayList_sum lookup0_Nil)
    ultimately show ?thesis by simp
  qed
  from q d k t show ?thesis by blast
qed

lemma sorted_take_drop:
  assumes "sorted_wrt (\<lambda>a b. \<not> less_count b a) xs" "x \<in> set (take n xs)" "y \<in> set (drop n xs)"
  shows "sint (snd y) \<le> sint (snd x)"
proof -
  have "sorted_wrt (\<lambda>a b. \<not> less_count b a) (take n xs @ drop n xs)" using assms(1) by simp
  then have "\<not> less_count y x" using assms(2,3) unfolding sorted_wrt_append by blast
  then show ?thesis by (simp add: less_count_def)
qed

subsection \<open>The example environments, evaluated\<close>

lemma utc_day_today: "utc_day 1769729400 = ''2026-01-29''"
  by (simp add: utc_day_def format_date_20482)

lemma utc_day_yesterday: "utc_day 1769643000 = ''2026-01-28''"
  by (simp add: utc_day_def format_date_20481)

lemma upt_0_2: "[0..<2] = [0, Suc 0]"
  by (simp add: upt_rec numeral_2_eq_2)

lemma dayList_2: "dayList 1769729400 2 = [''2026-01-29'', ''2026-01-28'']"
  by (simp add: dayList_utc utc_day_def upt_0_2 format_date_20482 format_date_20481)

lemma dayList_1: "dayList 1769729400 1 = [''2026-01-29'']"
  by (simp add: dayList_utc utc_day_def format_date_20482)

lemma computeTopK_scenarioA:
  "computeTopK scenarioA ''u1'' 2 2 =
     Inr [\<lparr>SongID = ''a'', ListenCount = 7, Rank = 1\<rparr>, \<lparr>SongID = ''b'', ListenCount = 3, Rank = 2\<rparr>]"
  by (simp add: computeTopK_def scenarioA_def dayList_2 insertionSort_def less_count_def)

lemma range_contract_id: "range_contract (\<lambda>m. m)"
  by (simp add: range_contract_def)

lemma range_contract_rev: "range_contract rev"
  by (simp add: range_contract_def)

lemma queries_succeed_scenarioA: "queries_succeed scenarioA u days"
  by (simp add: queries_succeed_def scenarioA_def list_all_iff)

subsection \<open>The result of \<^verbatim>\<open>computeTopK\<close>\<close>

text \<open>
  C4, as the code has it. When every query of the window succeeds, \<^verbatim>\<open>computeTopK\<close>
  returns a list (never an error for a day or a song without rows) with these
  properties, whatever order the map iteration and the sort choose among songs of
  equal count: it holds \<open>min k n\<close> entries for \<open>n\<close> songs with a row in the \<open>days\<close> most
  recent UTC days ending today; the ranks are 1, 2, ... in result order; the songs are
  distinct; every count is the sum of the song's per-day counts over the window; the
  counts descend; and every song left out has a sum no greater than any count returned.
  Nothing is promised on the order of songs with equal sums. Sums and comparisons are
  those of \<^verbatim>\<open>int64\<close>. (The handler calls the function with \<open>days\<close> in 1..30 and \<open>k\<close>
  in 1..100; for a negative \<open>days\<close> or \<open>k\<close> the Go code panics.)
\<close>

theorem computeTopK_spec:
  assumes "0 \<le> days" and "0 \<le> k"
    and "range_contract (range_map env)" and "sort_contract (sort_Slice env)"
    and "queries_succeed env u days"
  shows "\<exists>res. computeTopK env u days k = Inr res \<and>
           length res = min (nat k) (card (window_songs env u days)) \<and>
           map Rank res = map (\<lambda>i. int i + 1) [0..<length res] \<and>
           distinct (map SongID res) \<and>
           set (map SongID res) \<subseteq> window_songs env u days \<and>
           (\<forall>r \<in> set res. ListenCount r = window_total env u days (SongID r)) \<and>
           sorted_wrt (\<lambda>a b. sint b \<le> sint a) (map ListenCount res) \<and>
           (\<forall>s \<in> window_songs env u days - set (map SongID res). \<forall>r \<in> set res.
               sint (window_total env u days s) \<le> sint (ListenCount r))"
proof -
  obtain sc where q: "query_days (select env) u (dayList (now env) days) [] = Inr sc"
    and d: "distinct (map fst sc)" and ks: "fst ` set sc = window_songs env u days"
    and tot: "\<forall>(s, c) \<in> set sc. c = window_total env u days s"
    using songCounts_spec [OF assms(5)] by blast
  define L where "L = sort_Slice env less_count (range_map env sc)"
  define T where "T = take (nat k) L"
  have mL: "mset L = mset sc"
    using assms(3,4) by (simp add: L_def range_contract_def sort_contract_def)
  have sL: "sorted_wrt (\<lambda>a b. \<not> less_count b a) L"
    using assms(4) by (simp add: L_def sort_contract_def)
  have setL: "set L = set sc" using mL by (rule mset_eq_setD)
  have dL: "distinct (map fst L)"
  proof -
    have "mset (map fst L) = mset (map fst sc)" using mL by simp
    then show ?thesis using d by (metis mset_eq_imp_distinct_iff)
  qed
  have lenL: "length L = card (window_songs env u days)"
  proof -
    have "length L = length sc" using mL by (rule mset_eq_length)
    also have "\<dots> = card (set (map fst sc))" using d by (simp add: distinct_card del: set_map)
    finally show ?thesis using ks by simp
  qed
  have cut: "(if k < int (length L) then take (nat k) L else L) = T"
    using assms(2) by (simp add: T_def)
  have "computeTopK env u days k =
          Inr (build_results 0 (if k < int (length L) then take (nat k) L else L))"
    by (simp add: computeTopK_def q L_def Let_def)
  then have res: "computeTopK env u days k = Inr (build_results 0 T)"
    by (simp only: cut)
  have 1: "length (build_results 0 T) = min (nat k) (card (window_songs env u days))"
    by (simp add: length_build_results T_def lenL min.commute)
  have 2: "map Rank (build_results 0 T) = map (\<lambda>i. int i + 1) [0..<length (build_results 0 T)]"
    by (simp add: Rank_build_results length_build_results)
  have 3: "distinct (map SongID (build_results 0 T))"
    using dL by (simp add: SongID_build_results T_def take_map [symmetric] del: take_map)
  have 4: "set (map SongID (build_results 0 T)) \<subseteq> window_songs env u days"
  proof -
    have "set T \<subseteq> set sc" using setL by (auto simp: T_def dest: in_set_takeD)
    then show ?thesis using ks by (auto simp: SongID_build_results)
  qed
  have 5: "ListenCount r = window_total env u days (SongID r)" if "r \<in> set (build_results 0 T)" for r
  proof -
    have "(SongID r, ListenCount r) \<in> set T" using that by (rule set_build_results)
    then have "(SongID r, ListenCount r) \<in> set sc" using setL by (auto simp: T_def dest: in_set_takeD)
    with tot show ?thesis by blast
  qed
  have 6: "sorted_wrt (\<lambda>a b. sint b \<le> sint a) (map ListenCount (build_results 0 T))"
  proof -
    have "sorted_wrt (\<lambda>a b. \<not> less_count b a) T" using sL by (simp add: T_def sorted_wrt_take)
    then have "sorted_wrt (\<lambda>a b. sint (snd b) \<le> sint (snd a)) T"
      by (rule sorted_wrt_mono_rel [rotated]) (simp add: less_count_def)
    then show ?thesis by (simp add: ListenCount_build_results sorted_wrt_map)
  qed
  have 7: "sint (window_total env u days s) \<le> sint (ListenCount r)"
    if s: "s \<in> window_songs env u days - set (map SongID (build_results 0 T))"
      and r: "r \<in> set (build_results 0 T)" for s r
  proof -
    from s ks have "s \<in> fst ` set sc" by simp
    then obtain c where sc: "(s, c) \<in> set sc" by force
    then have c: "c = window_total env u days s" using tot by blast
    have "(s, c) \<in> set L" using sc setL by simp
    then have "(s, c) \<in> set (take (nat k) L) \<or> (s, c) \<in> set (drop (nat k) L)"
      by (metis Un_iff append_take_drop_id set_append)
    moreover have "(s, c) \<notin> set T"
    proof
      assume "(s, c) \<in> set T"
      then have "s \<in> set (map fst T)" by force
      with s show False by (simp add: SongID_build_results)
    qed
    ultimately have dr: "(s, c) \<in> set (drop (nat k) L)" by (simp add: T_def)
    have "(SongID r, ListenCount r) \<in> set (take (nat k) L)"
      using set_build_results [OF r] by (simp add: T_def)
    from sorted_take_drop [OF sL this dr] c show ?thesis by simp
  qed
  from res 1 2 3 4 5 6 7 show ?thesis by blast
qed

text \<open>
  C4, witness: Scenario A satisfies every hypothesis, and there the function returns a
  with count 7 at rank 1 and b with count 3 at rank 2.
\<close>

theorem computeTopK_spec_witness:
  "(0::int) \<le> 2 \<and> range_contract (range_map scenarioA) \<and> sort_contract (sort_Slice scenarioA) \<and>
   queries_succeed scenarioA ''u1'' 2 \<and>
   computeTopK scenarioA ''u1'' 2 2 =
     Inr [\<lparr>SongID = ''a'', ListenCount = 7, Rank = 1\<rparr>, \<lparr>SongID = ''b'', ListenCount = 3, Rank = 2\<rparr>] \<and>
   window_total scenarioA ''u1'' 2 ''a'' = 7 \<and> window_total scenarioA ''u1'' 2 ''b'' = 3 \<and>
   card (window_songs scenarioA ''u1'' 2) = 2"
proof -
  have h1: "(0::int) \<le> 2" by simp
  have h3: "range_contract (range_map scenarioA)"
    by (simp add: scenarioA_def range_contract_id)
  have h4: "sort_contract (sort_Slice scenarioA)"
    by (simp add: scenarioA_def insertionSort_contract)
  have h5: "queries_succeed scenarioA ''u1'' 2" by (rule queries_succeed_scenarioA)
  from computeTopK_spec [OF h1 h1 h3 h4 h5] obtain res where
    r: "computeTopK scenarioA ''u1'' 2 2 = Inr res"
    and len: "length res = min (nat 2) (card (window_songs scenarioA ''u1'' 2))"
    and tot: "\<forall>r \<in> set res. ListenCount r = window_total scenarioA ''u1'' 2 (SongID r)"
    by blast
  from r have res: "res = [\<lparr>SongID = ''a'', ListenCount = 7, Rank = 1\<rparr>, \<lparr>SongID = ''b'', ListenCount = 3, Rank = 2\<rparr>]"
    by (simp add: computeTopK_scenarioA)
  from tot res have t: "window_total scenarioA ''u1'' 2 ''a'' = 7" "window_total scenarioA ''u1'' 2 ''b'' = 3"
    by simp_all
  have "window_songs scenarioA ''u1'' 2 = {''a'', ''b''}"
    by (auto simp: window_songs_def day_rows_def scenarioA_def lessThan_nat_numeral lessThan_Suc
        utc_day_today utc_day_yesterday)
  then have c: "card (window_songs scenarioA ''u1'' 2) = 2" by simp
  from h1 h3 h4 h5 r res t c show ?thesis by simp
qed

text \<open>
  C4, counterexample: in Scenario B the songs a and b both sum to 3, the map is visited
  b first, the insertion sort leaves equal elements in place, and b is returned before
  a. Ties are not broken by ascending song id.
\<close>

theorem tie_not_by_song_id:
  "range_contract (range_map scenarioB) \<and> sort_contract (sort_Slice scenarioB) \<and>
   computeTopK scenarioB ''u1'' 1 2 =
     Inr [\<lparr>SongID = ''b'', ListenCount = 3, Rank = 1\<rparr>, \<lparr>SongID = ''a'', ListenCount = 3, Rank = 2\<rparr>]"
  by (simp add: computeTopK_def scenarioB_def dayList_1 insertionSort_def less_count_def
      range_contract_rev insertionSort_contract)

subsection \<open>Two runs of \<^verbatim>\<open>computeTopK\<close>\<close>












subsection \<open>Validation in \<^verbatim>\<open>topKHandler\<close>\<close>

lemma path_userID_None:
  "(path_userID p = None) =
   (length (Split (TrimPrefix p ''/users/'') (CHR ''/'')) \<noteq> 2 \<or>
    Split (TrimPrefix p ''/users/'') (CHR ''/'') ! 1 \<noteq> ''topk'')"
  by (auto simp: path_userID_def split: list.splits)

lemma path_userID_Some:
  "path_userID p = Some u \<Longrightarrow> Split (TrimPrefix p ''/users/'') (CHR ''/'') ! 0 = u"
  by (auto simp: path_userID_def split: list.splits if_splits)

lemma topKHandler_cases:
  assumes "Method r = ''GET''"
  shows "topKHandler env c r =
     (case path_userID (Path r) of
        None \<Rightarrow> (http_Error ''invalid path, expected /users/{user_id}/topk'' 400, c)
      | Some u \<Rightarrow>
          if param_value r ''days'' 7 < 1 \<or> 30 < param_value r ''days'' 7
          then (http_Error ''days must be 1-30'' 400, c)
          else if param_value r ''k'' 10 < 1 \<or> 100 < param_value r ''k'' 10
          then (http_Error ''k must be 1-100'' 400, c)
          else serve env c u (param_value r ''days'' 7) (param_value r ''k'' 10))"
proof (cases "path_userID (Path r)")
  case None
  then have "length (Split (TrimPrefix (Path r) ''/users/'') (CHR ''/'')) \<noteq> 2 \<or>
    Split (TrimPrefix (Path r) ''/users/'') (CHR ''/'') ! 1 \<noteq> ''topk''"
    by (simp only: path_userID_None)
  then show ?thesis
    using assms by (simp add: topKHandler_def Let_def None)
next
  case (Some u)
  then have "\<not> (length (Split (TrimPrefix (Path r) ''/users/'') (CHR ''/'')) \<noteq> 2 \<or>
    Split (TrimPrefix (Path r) ''/users/'') (CHR ''/'') ! 1 \<noteq> ''topk'')"
    using path_userID_None [of "Path r"] by simp
  moreover have "Split (TrimPrefix (Path r) ''/users/'') (CHR ''/'') ! 0 = u"
    using Some by (rule path_userID_Some)
  ultimately show ?thesis
    using assms Some
    by (simp add: topKHandler_def Let_def getQueryInt_param serve_def
        split: option.splits sum.splits)
qed

lemma status_serve: "status (fst (serve env c u d k)) \<noteq> 400"
  by (simp add: serve_def http_Error_def split: option.splits sum.splits)

text \<open>
  C7, as the code has it. A GET request is answered with status 400 exactly when its
  path is not \<^verbatim>\<open>/users/{user_id}/topk\<close>, or \<^verbatim>\<open>days\<close> parses as an integer outside
  1..30, or \<^verbatim>\<open>k\<close> parses as an integer outside 1..100. A value that is missing or
  that \<^verbatim>\<open>strconv.Atoi\<close> rejects is replaced by the default (7 and 10), and a computed
  response carries the values so obtained, never clamped ones. The user id is whatever
  stands between the two slashes.
\<close>

theorem topKHandler_validation:
  assumes "Method r = ''GET''"
  shows "(status (fst (topKHandler env c r)) = 400) =
           (path_userID (Path r) = None \<or>
            (\<exists>i. Atoi (Values_Get (Query r) ''days'') = Some i \<and> (i < 1 \<or> 30 < i)) \<or>
            (\<exists>i. Atoi (Values_Get (Query r) ''k'') = Some i \<and> (i < 1 \<or> 100 < i))) \<and>
         (\<forall>resp. fst (topKHandler env c r) =
                   \<lparr>status = 200, x_cache = Some ''MISS'', content = Json resp\<rparr> \<longrightarrow>
            path_userID (Path r) = Some (UserID resp) \<and>
            Days resp = (case Atoi (Values_Get (Query r) ''days'') of None \<Rightarrow> 7 | Some i \<Rightarrow> i) \<and>
            K resp = (case Atoi (Values_Get (Query r) ''k'') of None \<Rightarrow> 10 | Some i \<Rightarrow> i))"
proof (intro conjI allI impI)
  show "(status (fst (topKHandler env c r)) = 400) =
           (path_userID (Path r) = None \<or>
            (\<exists>i. Atoi (Values_Get (Query r) ''days'') = Some i \<and> (i < 1 \<or> 30 < i)) \<or>
            (\<exists>i. Atoi (Values_Get (Query r) ''k'') = Some i \<and> (i < 1 \<or> 100 < i)))"
    unfolding topKHandler_cases [OF assms]
    by (auto simp: http_Error_def status_serve param_value_def split: option.splits)
next
  fix resp
  assume a: "fst (topKHandler env c r) = \<lparr>status = 200, x_cache = Some ''MISS'', content = Json resp\<rparr>"
  then show "path_userID (Path r) = Some (UserID resp)"
    and "Days resp = (case Atoi (Values_Get (Query r) ''days'') of None \<Rightarrow> 7 | Some i \<Rightarrow> i)"
    and "K resp = (case Atoi (Values_Get (Query r) ''k'') of None \<Rightarrow> 10 | Some i \<Rightarrow> i)"
    unfolding topKHandler_cases [OF assms]
    by (auto simp: http_Error_def serve_def param_value_def split: option.splits sum.splits if_splits)
qed

lemma upt_0_7: "[0..<7] = [0, 1, 2, 3, 4, 5, 6]"
  by (simp add: upt_rec)

lemma dayList_7:
  "dayList 1769729400 7 =
     [''2026-01-29'', ''2026-01-28'', ''2026-01-27'', ''2026-01-26'', ''2026-01-25'',
      ''2026-01-24'', ''2026-01-23'']"
  by (simp add: dayList_utc utc_day_def upt_0_7 format_date_20482 format_date_20481
      format_date_20480 format_date_20479 format_date_20478 format_date_20477 format_date_20476)

lemma computeTopK_scenarioA_7_10:
  "computeTopK scenarioA ''u1'' 7 10 =
     Inr [\<lparr>SongID = ''a'', ListenCount = 7, Rank = 1\<rparr>, \<lparr>SongID = ''b'', ListenCount = 3, Rank = 2\<rparr>]"
  by (simp add: computeTopK_def scenarioA_def dayList_7 insertionSort_def less_count_def)

lemma computeTopK_scenarioA_2_10:
  "computeTopK scenarioA ''u1'' 2 10 =
     Inr [\<lparr>SongID = ''a'', ListenCount = 7, Rank = 1\<rparr>, \<lparr>SongID = ''b'', ListenCount = 3, Rank = 2\<rparr>]"
  by (simp add: computeTopK_def scenarioA_def dayList_2 insertionSort_def less_count_def)

lemma computeTopK_scenarioA_blank:
  "computeTopK scenarioA '' '' 7 10 = Inr []"
  by (simp add: computeTopK_def scenarioA_def dayList_7 insertionSort_def less_count_def)

lemma path_userID_u1: "path_userID ''/users/u1/topk'' = Some ''u1''"
  by (simp add: path_userID_def TrimPrefix_def)

lemma path_userID_blank: "path_userID ''/users/ /topk'' = Some '' ''"
  by (simp add: path_userID_def TrimPrefix_def)

lemma Atoi_examples:
  "Atoi ''abc'' = None" "Atoi ''99999999999999999999'' = None" "Atoi ''2'' = Some 2"
  "Atoi ''31'' = Some 31" "Atoi ''0'' = Some 0"
  by (simp_all add: Atoi_def is_digit_def digits_value_def)

lemma scenarioA_flags:
  "get_fails scenarioA = False" "set_fails scenarioA = False" "cacheTTL scenarioA = 3600"
  "now scenarioA = 1769729400"
  by (simp_all add: scenarioA_def)

text \<open>
  C7, witness: \<^verbatim>\<open>days=31\<close> is answered with 400, \<^verbatim>\<open>days=2&k=2\<close> is not.
\<close>

theorem topKHandler_validation_witness:
  "Method (topk_request ''/users/u1/topk'' [(''days'', ''31'')]) = ''GET'' \<and>
   status (fst (topKHandler scenarioA Map.empty
      (topk_request ''/users/u1/topk'' [(''days'', ''31'')]))) = 400 \<and>
   Method (topk_request ''/users/u1/topk'' [(''days'', ''2''), (''k'', ''2'')]) = ''GET'' \<and>
   status (fst (topKHandler scenarioA Map.empty
      (topk_request ''/users/u1/topk'' [(''days'', ''2''), (''k'', ''2'')]))) \<noteq> 400"
proof -
  let ?r1 = "topk_request ''/users/u1/topk'' [(''days'', ''31'')]"
  let ?r2 = "topk_request ''/users/u1/topk'' [(''days'', ''2''), (''k'', ''2'')]"
  have m1: "Method ?r1 = ''GET''" and m2: "Method ?r2 = ''GET''"
    by (simp_all add: topk_request_def)
  have "status (fst (topKHandler scenarioA Map.empty ?r1)) = 400"
    using topKHandler_validation [OF m1, of scenarioA Map.empty]
    by (simp add: topk_request_def Values_Get_def Atoi_examples Atoi_empty path_userID_u1)
  moreover have "status (fst (topKHandler scenarioA Map.empty ?r2)) \<noteq> 400"
    using topKHandler_validation [OF m2, of scenarioA Map.empty]
    by (simp add: topk_request_def Values_Get_def Atoi_examples path_userID_u1)
  ultimately show ?thesis using m1 m2 by simp
qed

text \<open>
  C7, counterexample: \<^verbatim>\<open>days=abc\<close> is served with the default of 7 days;
  \<^verbatim>\<open>k=99999999999999999999\<close>, a number outside 1..100 that does not fit an
  \<^verbatim>\<open>int\<close>, is served with the default k = 10; and the user id made of one
  blank, the path \<^verbatim>\<open>/users/%20/topk\<close> once decoded, is served. None is answered
  with 400.
\<close>

theorem malformed_values_are_served:
  "fst (topKHandler scenarioA Map.empty (topk_request ''/users/u1/topk'' [(''days'', ''abc'')])) =
     \<lparr>status = 200, x_cache = Some ''MISS'',
      content = Json \<lparr>UserID = ''u1'', Days = 7, K = 10,
        Results = [\<lparr>SongID = ''a'', ListenCount = 7, Rank = 1\<rparr>,
                   \<lparr>SongID = ''b'', ListenCount = 3, Rank = 2\<rparr>], Cached = False\<rparr>\<rparr> \<and>
   fst (topKHandler scenarioA Map.empty
      (topk_request ''/users/u1/topk'' [(''days'', ''2''), (''k'', ''99999999999999999999'')])) =
     \<lparr>status = 200, x_cache = Some ''MISS'',
      content = Json \<lparr>UserID = ''u1'', Days = 2, K = 10,
        Results = [\<lparr>SongID = ''a'', ListenCount = 7, Rank = 1\<rparr>,
                   \<lparr>SongID = ''b'', ListenCount = 3, Rank = 2\<rparr>], Cached = False\<rparr>\<rparr> \<and>
   fst (topKHandler scenarioA Map.empty (topk_request ''/users/ /topk'' [])) =
     \<lparr>status = 200, x_cache = Some ''MISS'',
      content = Json \<lparr>UserID = '' '', Days = 7, K = 10, Results = [], Cached = False\<rparr>\<rparr>"
  by (simp add: topKHandler_cases topk_request_def path_userID_u1 path_userID_blank
      param_value_def Values_Get_def Atoi_examples Atoi_empty serve_def redis_Get_def
      scenarioA_flags computeTopK_scenarioA_7_10 computeTopK_scenarioA_2_10
      computeTopK_scenarioA_blank)

subsection \<open>The cache\<close>

lemma cacheKey_u1_2_2: "cacheKey ''u1'' 2 2 = ''topk:u1:2:2''"
  by (simp add: cacheKey_def Itoa_def nat_digits.simps digit_char_def)

text \<open>
  C6, as the code has it. A valid request that finds no live cache entry and whose
  computation succeeds is answered with \<^verbatim>\<open>cached: false\<close> and header
  \<^verbatim>\<open>X-Cache: MISS\<close>, and the response is stored under the cache key with the TTL.
  The same request, at any instant before the entry expires, is answered with the
  stored bytes: the same results, still \<^verbatim>\<open>cached: false\<close>; only the header
  \<^verbatim>\<open>X-Cache: HIT\<close> tells the hit.
\<close>

theorem cached_response_replayed:
  assumes "Method r = ''GET''" and "path_userID (Path r) = Some u"
    and "param_value r ''days'' 7 = d" and "1 \<le> d" and "d \<le> 30"
    and "param_value r ''k'' 10 = k" and "1 \<le> k" and "k \<le> 100"
    and "redis_Get env1 c (cacheKey u d k) = None"
    and "computeTopK env1 u d k = Inr results"
    and "\<not> set_fails env1" and "\<not> get_fails env2"
    and "0 < cacheTTL env1" and "now env2 < now env1 + cacheTTL env1"
  shows "fst (topKHandler env1 c r) =
           \<lparr>status = 200, x_cache = Some ''MISS'',
            content = Json \<lparr>UserID = u, Days = d, K = k, Results = results, Cached = False\<rparr>\<rparr> \<and>
         snd (topKHandler env1 c r) (cacheKey u d k) =
           Some (\<lparr>UserID = u, Days = d, K = k, Results = results, Cached = False\<rparr>,
                 Some (now env1 + cacheTTL env1)) \<and>
         fst (topKHandler env2 (snd (topKHandler env1 c r)) r) =
           \<lparr>status = 200, x_cache = Some ''HIT'',
            content = Json \<lparr>UserID = u, Days = d, K = k, Results = results, Cached = False\<rparr>\<rparr>"
proof -
  let ?resp = "\<lparr>UserID = u, Days = d, K = k, Results = results, Cached = False\<rparr>"
  let ?c1 = "c(cacheKey u d k \<mapsto> (?resp, Some (now env1 + cacheTTL env1)))"
  have bounds: "\<not> (d < 1 \<or> 30 < d)" "\<not> (k < 1 \<or> 100 < k)"
    using assms(4,5,7,8) by simp_all
  have h: "topKHandler env c' r = serve env c' u d k" for env c'
    using bounds by (simp add: topKHandler_cases [OF assms(1)] assms(2,3,6))
  have first: "serve env1 c u d k =
      (\<lparr>status = 200, x_cache = Some ''MISS'', content = Json ?resp\<rparr>, ?c1)"
    using assms(11,13) by (simp add: serve_def assms(9,10) redis_Set_def)
  have "redis_Get env2 ?c1 (cacheKey u d k) = Some ?resp"
    using assms(12,14) by (simp add: redis_Get_def)
  then have second: "serve env2 ?c1 u d k =
      (\<lparr>status = 200, x_cache = Some ''HIT'', content = Json ?resp\<rparr>, ?c1)"
    by (simp add: serve_def)
  show ?thesis by (simp add: h first second)
qed

text \<open>
  C6, witness: Scenario A, the request \<^verbatim>\<open>days=2&k=2\<close> on an empty cache, and the
  same request 3599 seconds later with a TTL of 3600 seconds.
\<close>

theorem cached_response_replayed_witness:
  "Method (topk_request ''/users/u1/topk'' [(''days'', ''2''), (''k'', ''2'')]) = ''GET'' \<and>
   path_userID (Path (topk_request ''/users/u1/topk'' [(''days'', ''2''), (''k'', ''2'')])) = Some ''u1'' \<and>
   param_value (topk_request ''/users/u1/topk'' [(''days'', ''2''), (''k'', ''2'')]) ''days'' 7 = 2 \<and>
   param_value (topk_request ''/users/u1/topk'' [(''days'', ''2''), (''k'', ''2'')]) ''k'' 10 = 2 \<and>
   redis_Get scenarioA Map.empty (cacheKey ''u1'' 2 2) = None \<and>
   computeTopK scenarioA ''u1'' 2 2 =
     Inr [\<lparr>SongID = ''a'', ListenCount = 7, Rank = 1\<rparr>, \<lparr>SongID = ''b'', ListenCount = 3, Rank = 2\<rparr>] \<and>
   \<not> set_fails scenarioA \<and> \<not> get_fails (scenarioA\<lparr>now := 1769729400 + 3599\<rparr>) \<and>
   0 < cacheTTL scenarioA \<and>
   now (scenarioA\<lparr>now := 1769729400 + 3599\<rparr>) < now scenarioA + cacheTTL scenarioA \<and>
   snd (topKHandler scenarioA Map.empty
         (topk_request ''/users/u1/topk'' [(''days'', ''2''), (''k'', ''2'')])) ''topk:u1:2:2'' =
     Some (\<lparr>UserID = ''u1'', Days = 2, K = 2,
            Results = [\<lparr>SongID = ''a'', ListenCount = 7, Rank = 1\<rparr>,
                       \<lparr>SongID = ''b'', ListenCount = 3, Rank = 2\<rparr>], Cached = False\<rparr>,
           Some 1769733000) \<and>
   fst (topKHandler (scenarioA\<lparr>now := 1769729400 + 3599\<rparr>)
         (snd (topKHandler scenarioA Map.empty
                (topk_request ''/users/u1/topk'' [(''days'', ''2''), (''k'', ''2'')])))
         (topk_request ''/users/u1/topk'' [(''days'', ''2''), (''k'', ''2'')])) =
     \<lparr>status = 200, x_cache = Some ''HIT'',
      content = Json \<lparr>UserID = ''u1'', Days = 2, K = 2,
        Results = [\<lparr>SongID = ''a'', ListenCount = 7, Rank = 1\<rparr>,
                   \<lparr>SongID = ''b'', ListenCount = 3, Rank = 2\<rparr>], Cached = False\<rparr>\<rparr>"
proof -
  let ?r = "topk_request ''/users/u1/topk'' [(''days'', ''2''), (''k'', ''2'')]"
  let ?later = "scenarioA\<lparr>now := 1769729400 + 3599\<rparr>"
  have h1: "Method ?r = ''GET''" by (simp add: topk_request_def)
  have h2: "path_userID (Path ?r) = Some ''u1''" by (simp add: topk_request_def path_userID_u1)
  have h3: "param_value ?r ''days'' 7 = 2"
    by (simp add: topk_request_def param_value_def Values_Get_def Atoi_examples)
  have h4: "param_value ?r ''k'' 10 = 2"
    by (simp add: topk_request_def param_value_def Values_Get_def Atoi_examples)
  have b: "(1::int) \<le> 2" "(2::int) \<le> 30" "(2::int) \<le> 100" by simp_all
  have h5: "redis_Get scenarioA Map.empty (cacheKey ''u1'' 2 2) = None"
    by (simp add: redis_Get_def)
  note h6 = computeTopK_scenarioA
  have h7: "\<not> set_fails scenarioA" and h8: "\<not> get_fails ?later"
    and h9: "0 < cacheTTL scenarioA" and h10: "now ?later < now scenarioA + cacheTTL scenarioA"
    by (simp_all add: scenarioA_flags)
  from cached_response_replayed [OF h1 h2 h3 b(1) b(2) h4 b(1) b(3) h5 h6 h7 h8 h9 h10]
  show ?thesis
    using h1 h2 h3 h4 h5 h6 h7 h8 h9 h10 by (simp add: cacheKey_u1_2_2 scenarioA_flags)
qed

text \<open>
  C6, counterexample: the second of two identical requests in Scenario A is a cache hit
  and its body says \<^verbatim>\<open>cached: false\<close>.
\<close>

theorem cache_hit_says_cached_false:
  "fst (topKHandler scenarioA
         (snd (topKHandler scenarioA Map.empty
                (topk_request ''/users/u1/topk'' [(''days'', ''2''), (''k'', ''2'')])))
         (topk_request ''/users/u1/topk'' [(''days'', ''2''), (''k'', ''2'')])) =
     \<lparr>status = 200, x_cache = Some ''HIT'',
      content = Json \<lparr>UserID = ''u1'', Days = 2, K = 2,
        Results = [\<lparr>SongID = ''a'', ListenCount = 7, Rank = 1\<rparr>,
                   \<lparr>SongID = ''b'', ListenCount = 3, Rank = 2\<rparr>], Cached = False\<rparr>\<rparr>"
  by (simp add: topKHandler_cases topk_request_def path_userID_u1
      param_value_def Values_Get_def Atoi_examples serve_def redis_Get_def redis_Set_def
      scenarioA_flags computeTopK_scenarioA cacheKey_u1_2_2)

section \<open>Properties of the aggregator\<close>

subsection \<open>The dedup check, the accumulator and the flush\<close>

lemma ensureBloomFilter_bits:
  "filter_bits (snd (ensureBloomFilter fails R day)) day' = filter_bits R day'"
  by (auto simp: ensureBloomFilter_def BF_RESERVE_def filter_bits_def split: option.splits)

lemma ensureBloomFilter_upd:
  "(snd (ensureBloomFilter fails R day))(bloomKey day \<mapsto> X) = R(bloomKey day \<mapsto> X)"
  by (auto simp: ensureBloomFilter_def BF_RESERVE_def split: option.splits)

lemma checkAndAddToBloom_answered:
  assumes "add_reply out = IntReply \<or> add_reply out = BoolReply"
  shows "checkAndAddToBloom env out R (event_day env e) (EventID e) =
           (Inr (reported_present env R e), add_bits env R e)"
proof -
  have b: "(case snd (ensureBloomFilter (reserve_fails out) R (event_day env e))
              (bloomKey (event_day env e)) of None \<Rightarrow> {} | Some b \<Rightarrow> b) =
           filter_bits R (event_day env e)"
    using ensureBloomFilter_bits [of "reserve_fails out" R "event_day env e" "event_day env e"]
    by (simp add: filter_bits_def)
  from assms show ?thesis
    by (auto simp: checkAndAddToBloom_def BF_ADD_def Let_def b ensureBloomFilter_upd
        reported_present_def add_bits_def)
qed

lemma accumulate_answered:
  assumes "add_reply out = IntReply \<or> add_reply out = BoolReply"
  shows "accumulate env out e m w =
           (if reported_present env (redis w) e
            then w\<lparr>redis := add_bits env (redis w) e,
                   agg := (agg w)\<lparr>dedupCount := dedupCount (agg w) + 1, lastMsg := m, hasMsg := True\<rparr>\<rparr>
            else w\<lparr>redis := add_bits env (redis w) e,
                   agg := (agg w)\<lparr>counts := add_count (key_of env e) 1 (counts (agg w)),
                                lastMsg := m, hasMsg := True\<rparr>\<rparr>)"
  using checkAndAddToBloom_answered [OF assms, of env "redis w" e]
  by (simp add: accumulate_def Let_def event_day_def [symmetric] key_of_def)

lemma accumulate_frame:
  "cassandra (accumulate env out e m w) = cassandra w"
  "committed (accumulate env out e m w) = committed w"
  by (simp_all add: accumulate_def Let_def)

lemma accumulate_counts:
  "counts (agg (accumulate env out e m w)) = counts (agg w) \<or>
   counts (agg (accumulate env out e m w)) = add_count (key_of env e) 1 (counts (agg w))"
  by (simp add: accumulate_def Let_def event_day_def [symmetric] key_of_def)

lemma write_counts_apply:
  "distinct (map fst cs) \<Longrightarrow>
   write_counts fails cs C key =
     (if fails key then C key else C key + sint (lookup0 cs key))"
proof (induction cs arbitrary: C)
  case Nil
  show ?case by (simp add: lookup0_def)
next
  case (Cons a cs)
  obtain k v where a: "a = (k, v)" by (cases a)
  from Cons.prems a have d: "distinct (map fst cs)" and n: "k \<notin> fst ` set cs" by simp_all
  from n have l: "lookup0 cs k = 0"
    by (simp add: lookup0_def map_of_eq_None_iff [THEN iffD2])
  show ?case
    using Cons.IH [OF d] a l by (auto simp: lookup0_def)
qed

lemma flush_twice: "flush fo' (flush fo w) = flush fo w"
  by (simp add: flush_def Let_def)

lemma flush_counts: "counts (agg (flush fo w)) = []"
  by (simp add: flush_def Let_def)

lemma flush_cassandra:
  "cassandra (flush fo w) = write_counts (write_fails fo) (counts (agg w)) (cassandra w)"
  by (simp add: flush_def Let_def)

subsection \<open>The example aggregator, evaluated\<close>

lemma sint_listened: "sint (1769729400 :: int64) = 1769729400"
  by simp

lemma event_day_event1_utc: "event_day utc_env event1 = ''2026-01-29''"
  by (simp add: event_day_def Unix_Format_date_def utc_env_def event1_def format_date_20482)

lemma event_day_event1_east: "event_day east_env event1 = ''2026-01-30''"
  by (simp add: event_day_def Unix_Format_date_def utc_env_def east_env_def event1_def
      format_date_20483)

lemma utc_day_event1: "utc_day (sint (ListenedAt event1)) = ''2026-01-29''"
  by (simp add: utc_day_def event1_def format_date_20482)

lemma key_of_event1: "key_of utc_env event1 = key1"
  by (simp add: key_of_def event_day_event1_utc key1_def) (simp add: event1_def)

lemma answered_up: "add_reply redis_up = IntReply \<or> add_reply redis_up = BoolReply"
  by (simp add: redis_up_def)

lemma not_present_world0:
  "\<not> reported_present utc_env (redis world0) event1"
  "\<not> reported_present east_env (redis world0) event1"
  by (simp_all add: reported_present_def world0_def filter_bits_def utc_env_def east_env_def)

text \<open>The first delivery of the event to an aggregator that has seen nothing yet.\<close>

lemma first_delivery:
  "accumulate utc_env redis_up event1 m world0 =
     world0\<lparr>redis := add_bits utc_env Map.empty event1,
            agg := new_Aggregator\<lparr>counts := [(key1, 1)], lastMsg := m, hasMsg := True\<rparr>\<rparr>"
  by (simp add: accumulate_answered [OF answered_up] not_present_world0 key_of_event1)
     (simp add: world0_def new_Aggregator_def)

subsection \<open>The day bucket\<close>

text \<open>
  C8, at the failing input. \<^verbatim>\<open>accumulate\<close> prints the day of \<^verbatim>\<open>time.Unix(...)\<close>, a
  time in the local zone of the process. In a process whose local zone is UTC+05:30,
  the event listened to at 2026-01-29 23:30:00 UTC is counted under the day 2026-01-30,
  while the UTC day that contains its timestamp is 2026-01-29 (the day under which the
  API server, which computes its days in UTC, looks for it).
\<close>

theorem day_bucket_is_local:
  "counts (agg (accumulate east_env redis_up event1 (listen_msg 5) world0)) =
     [(\<lparr>key_UserID = ''u1'', Day = ''2026-01-30'', key_SongID = ''a''\<rparr>, 1)] \<and>
   utc_day (sint (ListenedAt event1)) = ''2026-01-29''"
  by (simp add: accumulate_answered [OF answered_up] not_present_world0 key_of_def
      event_day_event1_east utc_day_event1)
     (simp add: world0_def new_Aggregator_def event1_def)

subsection \<open>A flush with a failed write\<close>

text \<open>
  C2, as the code has it. A flush leaves the accumulator empty; for every key the
  stored count grows by the drained delta when the write of the key succeeds and stays
  as it was when the write fails. So a failure touches its own key only, nothing is
  merged back into the accumulator, and the delta of a failed key is dropped: a flush
  that follows without new events changes nothing.
\<close>

theorem flush_drops_failed_deltas:
  assumes "distinct (map fst (counts (agg w)))"
  shows "counts (agg (flush fo w)) = [] \<and>
         (\<forall>key. cassandra (flush fo w) key =
            (if write_fails fo key then cassandra w key
             else cassandra w key + sint (lookup0 (counts (agg w)) key))) \<and>
         flush fo' (flush fo w) = flush fo w"
  by (simp add: flush_counts flush_cassandra write_counts_apply [OF assms] flush_twice)

text \<open>
  C2, witness: one counted event, then a flush whose write fails (the stored count
  stays 0) or succeeds (the stored count becomes 1); the entry list has distinct keys.
\<close>

theorem flush_drops_failed_deltas_witness:
  "distinct (map fst (counts (agg (accumulate utc_env redis_up event1 (listen_msg 5) world0)))) \<and>
   counts (agg (flush writes_fail (accumulate utc_env redis_up event1 (listen_msg 5) world0))) = [] \<and>
   cassandra (flush writes_fail (accumulate utc_env redis_up event1 (listen_msg 5) world0)) key1 = 0 \<and>
   cassandra (flush writes_succeed (accumulate utc_env redis_up event1 (listen_msg 5) world0)) key1 = 1"
proof -
  let ?w = "accumulate utc_env redis_up event1 (listen_msg 5) world0"
  have c: "counts (agg ?w) = [(key1, 1)]" by (simp add: first_delivery)
  then have d: "distinct (map fst (counts (agg ?w)))" by simp
  have z: "cassandra ?w key1 = 0" by (simp add: accumulate_frame world0_def)
  from flush_drops_failed_deltas [OF d, of writes_fail]
  have "counts (agg (flush writes_fail ?w)) = []" and "cassandra (flush writes_fail ?w) key1 = 0"
    by (simp_all add: writes_fail_def z)
  moreover from flush_drops_failed_deltas [OF d, of writes_succeed]
  have "cassandra (flush writes_succeed ?w) key1 = 1"
    by (simp add: writes_succeed_def z c lookup0_def)
  ultimately show ?thesis using d by simp
qed

text \<open>
  C2, counterexample: after the flush whose write of the only pending key fails, the
  accumulator is empty, the stored count is still 0, the offset after the event's
  message is committed, and a second flush, all of whose writes would succeed, stores
  nothing: the failed delta is neither re-merged nor retried.
\<close>

theorem failed_delta_is_lost_and_committed:
  "counts (agg (accumulate utc_env redis_up event1 (listen_msg 5) world0)) = [(key1, 1)] \<and>
   counts (agg (flush writes_fail (accumulate utc_env redis_up event1 (listen_msg 5) world0))) = [] \<and>
   cassandra (flush writes_fail (accumulate utc_env redis_up event1 (listen_msg 5) world0)) key1 = 0 \<and>
   committed (flush writes_fail (accumulate utc_env redis_up event1 (listen_msg 5) world0)) 0 = Some 6 \<and>
   cassandra (flush writes_succeed
     (flush writes_fail (accumulate utc_env redis_up event1 (listen_msg 5) world0))) key1 = 0"
  by (simp add: first_delivery flush_def Let_def writes_fail_def writes_succeed_def
      CommitMessages_def)
     (simp add: listen_msg_def world0_def new_Aggregator_def)

subsection \<open>A message that does not decode\<close>

text \<open>
  C10. A turn of the message loop on a message whose payload does not decode commits
  the offset after that message (when the commit goes through) and touches neither the
  accumulator, whose pending deltas stay pending, nor the stored counts: the commit
  point moves past every earlier message of the partition, flushed or not.
\<close>

theorem malformed_message_commits:
  assumes "Unmarshal env (Value msg) = None"
  shows "committed (main_iteration env (Fetched msg) out False w) (Partition msg) =
           Some (Offset msg + 1) \<and>
         agg (main_iteration env (Fetched msg) out False w) = agg w \<and>
         cassandra (main_iteration env (Fetched msg) out False w) = cassandra w"
  using assms by (simp add: main_iteration_def CommitMessages_def)

text \<open>
  C10, witness: the event of the message at offset 5 is counted and pending; the
  message at offset 6 does not decode; after its turn the committed offset is 7, the
  delta is still in memory and the stored count is still 0.
\<close>

theorem malformed_message_commits_witness:
  "Unmarshal utc_env (Value (garbage_msg 6)) = None \<and>
   counts (agg (main_iteration utc_env (Fetched (garbage_msg 6)) redis_up False
      (main_iteration utc_env (Fetched (listen_msg 5)) redis_up False world0))) = [(key1, 1)] \<and>
   cassandra (main_iteration utc_env (Fetched (garbage_msg 6)) redis_up False
      (main_iteration utc_env (Fetched (listen_msg 5)) redis_up False world0)) key1 = 0 \<and>
   committed (main_iteration utc_env (Fetched (garbage_msg 6)) redis_up False
      (main_iteration utc_env (Fetched (listen_msg 5)) redis_up False world0)) 0 = Some 7"
proof -
  let ?w = "main_iteration utc_env (Fetched (listen_msg 5)) redis_up False world0"
  have u: "Unmarshal utc_env (Value (garbage_msg 6)) = None"
    by (simp add: utc_env_def garbage_msg_def)
  have w: "?w = accumulate utc_env redis_up event1 (listen_msg 5) world0"
    by (simp add: main_iteration_def utc_env_def listen_msg_def)
  have c: "counts (agg ?w) = [(key1, 1)]"
    by (simp add: w first_delivery)
  have z: "cassandra ?w key1 = 0"
    by (simp add: w accumulate_frame) (simp add: world0_def)
  from malformed_message_commits [OF u, of redis_up ?w] c z u show ?thesis
    by (simp add: garbage_msg_def)
qed

subsection \<open>Stored counts along a run\<close>

lemma sint_of_nat_small: "n < 2 ^ 63 \<Longrightarrow> sint (word_of_nat n :: int64) = int n"
  by (simp add: signed_of_nat signed_take_bit_int_eq_self)

lemma sint_unat_small:
  assumes "unat (v :: int64) < 2 ^ 63"
  shows "sint v = int (unat v)"
proof -
  have "sint (word_of_nat (unat v) :: int64) = int (unat v)"
    using assms by (rule sint_of_nat_small)
  then show ?thesis by simp
qed

lemma unat_succ_le: "unat (v + 1 :: int64) \<le> Suc (unat v)"
  by (simp add: unat_word_ariths)

lemma add_count_bound:
  "\<forall>v \<in> snd ` set m. unat v \<le> n \<Longrightarrow> \<forall>v \<in> snd ` set (add_count k 1 m). unat v \<le> Suc n"
proof (induction m)
  case Nil
  show ?case by simp
next
  case (Cons a m)
  obtain k' v where a: "a = (k', v)" by (cases a)
  from Cons.prems a have v: "unat v \<le> n" and m: "\<forall>v \<in> snd ` set m. unat v \<le> n" by simp_all
  have "unat (v + 1) \<le> Suc n" using unat_succ_le [of v] v by simp
  moreover have "\<forall>v \<in> snd ` set m. unat v \<le> Suc n" using m by auto
  ultimately show ?case using a Cons.IH [OF m] v by auto
qed

lemma accumulate_pending:
  assumes "pending_le n w"
  shows "pending_le (Suc n) (accumulate env out e m w)"
proof -
  from accumulate_counts [of env out e m w] show ?thesis
  proof
    assume "counts (agg (accumulate env out e m w)) = counts (agg w)"
    with assms show ?thesis by (auto simp: pending_le_def)
  next
    assume "counts (agg (accumulate env out e m w)) = add_count (key_of env e) 1 (counts (agg w))"
    with assms add_count_bound [of "counts (agg w)" n "key_of env e"]
    show ?thesis by (simp add: pending_le_def)
  qed
qed

lemma main_iteration_pending:
  assumes "pending_le n w"
  shows "pending_le (Suc n) (main_iteration env f out cfails w)"
proof (cases f)
  case FetchError
  with assms show ?thesis by (auto simp: main_iteration_def pending_le_def)
next
  case (Fetched msg)
  show ?thesis
  proof (cases "Unmarshal env (Value msg)")
    case None
    with assms Fetched show ?thesis by (auto simp: main_iteration_def pending_le_def)
  next
    case (Some e)
    with Fetched accumulate_pending [OF assms] show ?thesis by (simp add: main_iteration_def)
  qed
qed

lemma do_step_pending: "pending_le n w \<Longrightarrow> pending_le (Suc n) (do_step env w s)"
proof (cases s)
  case (Turn f out cfails)
  assume "pending_le n w"
  then show ?thesis unfolding Turn do_step.simps by (rule main_iteration_pending)
next
  case (Flush out)
  show ?thesis by (simp add: Flush pending_le_def flush_counts)
qed

lemma write_counts_mono:
  "\<forall>v \<in> snd ` set cs. 0 \<le> sint v \<Longrightarrow> C key \<le> write_counts fails cs C key"
proof (induction cs arbitrary: C)
  case Nil
  show ?case by simp
next
  case (Cons a cs)
  obtain k v where a: "a = (k, v)" by (cases a)
  from Cons.prems a have v: "0 \<le> sint v" and r: "\<forall>v \<in> snd ` set cs. 0 \<le> sint v" by simp_all
  let ?C = "if fails k then C else C(k := C k + sint v)"
  have "C key \<le> ?C key" using v by simp
  also have "\<dots> \<le> write_counts fails cs ?C key" by (rule Cons.IH [OF r])
  finally show ?case by (simp add: a)
qed

lemma do_step_mono:
  assumes "pending_le n w" and "n < 2 ^ 63"
  shows "cassandra w key \<le> cassandra (do_step env w s) key"
proof (cases s)
  case (Turn f out cfails)
  then show ?thesis
    by (simp add: main_iteration_def accumulate_frame split: fetch.splits option.splits)
next
  case (Flush out)
  have "\<forall>v \<in> snd ` set (counts (agg w)). 0 \<le> sint v"
  proof
    fix v assume "v \<in> snd ` set (counts (agg w))"
    with assms have "unat v < 2 ^ 63" by (auto simp: pending_le_def)
    then show "0 \<le> sint v" by (simp add: sint_unat_small)
  qed
  then show ?thesis by (simp add: Flush flush_cassandra write_counts_mono)
qed

lemma run_Cons: "run env (s # steps) w = run env steps (do_step env w s)"
  by (simp add: run_def)

lemma run_append: "run env (xs @ ys) w = run env ys (run env xs w)"
  by (simp add: run_def)

lemma run_pending: "pending_le n w \<Longrightarrow> pending_le (n + length xs) (run env xs w)"
proof (induction xs arbitrary: n w)
  case Nil
  then show ?case by (simp add: run_def)
next
  case (Cons s xs)
  from Cons.IH [OF do_step_pending [OF Cons.prems]] show ?case by (simp add: run_Cons)
qed

lemma run_mono:
  "pending_le n w \<Longrightarrow> n + length ys < 2 ^ 63 \<Longrightarrow> cassandra w key \<le> cassandra (run env ys w) key"
proof (induction ys arbitrary: n w)
  case Nil
  show ?case by (simp add: run_def)
next
  case (Cons s ys)
  from Cons.prems have n: "n < 2 ^ 63" and l: "Suc n + length ys < 2 ^ 63" by simp_all
  have "cassandra w key \<le> cassandra (do_step env w s) key"
    using Cons.prems(1) n by (rule do_step_mono)
  also have "\<dots> \<le> cassandra (run env ys (do_step env w s)) key"
    using do_step_pending [OF Cons.prems(1)] l by (rule Cons.IH)
  finally show ?case by (simp add: run_Cons)
qed

text \<open>
  C9. Along every run of the aggregator that starts with an empty accumulator (turns of
  the message loop and flushes, in any order, with any outcome of the Redis, Cassandra
  and Kafka calls), the count stored for a key never decreases: the state after any
  prefix of the run holds a count no greater than the state after any longer prefix.
  The bound on the length of the run keeps the \<^verbatim>\<open>int64\<close> deltas from wrapping around:
  a delta grows by one per event, so fewer than \<open>2 ^ 63\<close> steps leave every delta
  positive.
\<close>

theorem persisted_counts_never_decrease:
  assumes "counts (agg w) = []" and "length (xs @ ys) < 2 ^ 63"
  shows "cassandra (run env xs w) key \<le> cassandra (run env (xs @ ys) w) key"
proof -
  have "pending_le 0 w" using assms(1) by (simp add: pending_le_def)
  then have "pending_le (0 + length xs) (run env xs w)" by (rule run_pending)
  moreover have "0 + length xs + length ys < 2 ^ 63" using assms(2) by simp
  ultimately have "cassandra (run env xs w) key \<le> cassandra (run env ys (run env xs w)) key"
    by (rule run_mono)
  then show ?thesis by (simp add: run_append)
qed

text \<open>
  C9, witness: from the initial state, one counted event and then a flush; the stored
  count of the key goes from 0 to 1.
\<close>

theorem persisted_counts_never_decrease_witness:
  "counts (agg world0) = [] \<and>
   length ([Turn (Fetched (listen_msg 5)) redis_up False] @ [Flush writes_succeed]) < 2 ^ 63 \<and>
   cassandra (run utc_env [Turn (Fetched (listen_msg 5)) redis_up False] world0) key1
     \<le> cassandra (run utc_env ([Turn (Fetched (listen_msg 5)) redis_up False] @
                                [Flush writes_succeed]) world0) key1 \<and>
   cassandra (run utc_env [Turn (Fetched (listen_msg 5)) redis_up False] world0) key1 = 0 \<and>
   cassandra (run utc_env ([Turn (Fetched (listen_msg 5)) redis_up False] @
                           [Flush writes_succeed]) world0) key1 = 1"
proof -
  let ?xs = "[Turn (Fetched (listen_msg 5)) redis_up False]"
  let ?ys = "[Flush writes_succeed]"
  have h1: "counts (agg world0) = []" by (simp add: world0_def new_Aggregator_def)
  have h2: "length (?xs @ ?ys) < 2 ^ 63" by simp
  have w: "run utc_env ?xs world0 = accumulate utc_env redis_up event1 (listen_msg 5) world0"
    by (simp add: run_def main_iteration_def utc_env_def listen_msg_def)
  have a: "cassandra (run utc_env ?xs world0) key1 = 0"
    by (simp add: w accumulate_frame) (simp add: world0_def)
  have b: "cassandra (run utc_env (?xs @ ?ys) world0) key1 = 1"
    unfolding run_append w
    by (simp add: run_def first_delivery flush_cassandra writes_succeed_def)
       (simp add: world0_def)
  from persisted_counts_never_decrease [OF h1 h2, of utc_env key1] h1 h2 a b
  show ?thesis by simp
qed

subsection \<open>Counting with the dedup filter\<close>

lemma accumulate_all_Nil: "accumulate_all env [] w = w"
  by (simp add: accumulate_all_def)

lemma accumulate_all_Cons:
  "accumulate_all env ((e, m, out) # ds) w = accumulate_all env ds (accumulate env out e m w)"
  by (simp add: accumulate_all_def)

lemma accumulate_all_cassandra: "cassandra (accumulate_all env ds w) = cassandra w"
proof (induction ds arbitrary: w)
  case Nil
  show ?case by (simp add: accumulate_all_Nil)
next
  case (Cons d ds)
  obtain e m out where d: "d = (e, m, out)" by (cases d)
  show ?case by (simp add: d accumulate_all_Cons Cons.IH accumulate_frame)
qed

lemma accumulate_distinct:
  "distinct (map fst (counts (agg w))) \<Longrightarrow>
   distinct (map fst (counts (agg (accumulate env out e m w))))"
  using accumulate_counts [of env out e m w] by (auto simp: distinct_add_count)

subsection \<open>The filter never forgets\<close>

lemma bloomKey_inj: "bloomKey d = bloomKey d' \<longleftrightarrow> d = d'"
  by (simp add: bloomKey_def)

lemma filter_bits_add:
  "filter_bits (add_bits env R e) d =
     (if d = event_day env e then filter_bits R d \<union> set (bloom_bits env (EventID e))
      else filter_bits R d)"
  by (simp add: add_bits_def filter_bits_def bloomKey_inj)

lemma present_add_self: "reported_present env (add_bits env R e) e"
  by (simp add: reported_present_def filter_bits_add)

lemma present_add_mono:
  "reported_present env R e' \<Longrightarrow> reported_present env (add_bits env R e) e'"
  by (auto simp: reported_present_def filter_bits_add)

lemma present_dedup_id:
  "dedup_id env e = dedup_id env e' \<Longrightarrow> reported_present env R e = reported_present env R e'"
  by (simp add: dedup_id_def reported_present_def)

text \<open>
  Every first delivery of an id is either counted or a false positive, and no later
  delivery of the id is counted: as multisets, the counted events and the false
  positives make up the deduplicated sequence.
\<close>

lemma counted_and_false_positives:
  assumes "\<forall>e. dedup_id env e \<in> set seen \<longrightarrow> reported_present env R e"
  shows "mset (counted env R es) + mset (false_positives env R seen es) =
         mset (dedup_first (dedup_id env) (filter (\<lambda>e. dedup_id env e \<notin> set seen) es))"
  using assms
proof (induction es arbitrary: R seen)
  case Nil
  show ?case by simp
next
  case (Cons e es)
  let ?R = "add_bits env R e" and ?seen = "dedup_id env e # seen"
  have rec: "\<forall>e'. dedup_id env e' \<in> set ?seen \<longrightarrow> reported_present env ?R e'"
  proof (intro allI impI)
    fix e' assume "dedup_id env e' \<in> set ?seen"
    then consider "dedup_id env e' = dedup_id env e" | "dedup_id env e' \<in> set seen" by auto
    then show "reported_present env ?R e'"
    proof cases
      case 1
      from present_dedup_id [OF 1, of ?R] present_add_self [of env R e]
      show ?thesis by simp
    next
      case 2
      with Cons.prems show ?thesis by (simp add: present_add_mono)
    qed
  qed
  note IH = Cons.IH [OF rec]
  show ?case
  proof (cases "dedup_id env e \<in> set seen")
    case True
    then have p: "reported_present env R e" using Cons.prems by simp
    have c1: "counted env R (e # es) = counted env ?R es" using p by simp
    have c2: "false_positives env R seen (e # es) = false_positives env ?R ?seen es"
      using True by simp
    have "set ?seen = set seen" using True by auto
    then have c3: "filter (\<lambda>e. dedup_id env e \<notin> set seen) (e # es) =
                   filter (\<lambda>e. dedup_id env e \<notin> set ?seen) es"
      using True by (simp del: set_simps)
    show ?thesis unfolding c1 c2 c3 by (rule IH)
  next
    case False
    have f: "filter (\<lambda>y. dedup_id env y \<noteq> dedup_id env e)
               (filter (\<lambda>e. dedup_id env e \<notin> set seen) es) =
             filter (\<lambda>e. dedup_id env e \<notin> set ?seen) es"
      by (induction es) simp_all
    have c3: "dedup_first (dedup_id env) (filter (\<lambda>e. dedup_id env e \<notin> set seen) (e # es)) =
              e # dedup_first (dedup_id env) (filter (\<lambda>e. dedup_id env e \<notin> set ?seen) es)"
      using False by (simp add: f del: set_simps filter_filter)
    have c12: "mset (counted env R (e # es)) + mset (false_positives env R seen (e # es)) =
               add_mset e (mset (counted env ?R es) + mset (false_positives env ?R ?seen es))"
      using False by simp
    show ?thesis unfolding c3 c12 by (simp only: IH mset.simps)
  qed
qed

lemma count_split:
  "mset xs + mset ys = mset zs \<Longrightarrow>
   length (filter P xs) + length (filter P ys) = length (filter P zs)"
proof -
  assume "mset xs + mset ys = mset zs"
  then have "mset (xs @ ys) = mset zs" by simp
  then have "mset (filter P (xs @ ys)) = mset (filter P zs)" by (simp only: mset_filter)
  then have "length (filter P (xs @ ys)) = length (filter P zs)" by (rule mset_eq_length)
  then show ?thesis by simp
qed

lemma accumulate_no_reply:
  assumes "add_reply out = NoReply"
  shows "accumulate env out e m w =
           w\<lparr>redis := snd (ensureBloomFilter (reserve_fails out) (redis w) (event_day env e)),
             agg := (agg w)\<lparr>counts := add_count (key_of env e) 1 (counts (agg w)),
                          lastMsg := m, hasMsg := True\<rparr>\<rparr>"
  using assms
  by (simp add: accumulate_def Let_def checkAndAddToBloom_def BF_ADD_def
      event_day_def [symmetric] key_of_def)

lemma flush_redis: "redis (flush fo w) = redis w"
  by (simp add: flush_def Let_def)

lemma restart_simps:
  "redis (restart w) = redis w" "cassandra (restart w) = cassandra w"
  "counts (agg (restart w)) = []"
  by (simp_all add: restart_def new_Aggregator_def)

lemma accumulate_all_present:
  "list_all answered ds \<Longrightarrow> \<forall>e \<in> S. reported_present env (redis w) e \<Longrightarrow>
   \<forall>e \<in> S \<union> set (map fst ds). reported_present env (redis (accumulate_all env ds w)) e"
proof (induction ds arbitrary: w S)
  case Nil
  then show ?case by (simp add: accumulate_all_Nil)
next
  case (Cons d ds)
  obtain e m out where d: "d = (e, m, out)" by (cases d)
  from Cons.prems(1) have r: "list_all answered ds" and "answered d" by simp_all
  then have a: "add_reply out = IntReply \<or> add_reply out = BoolReply"
    by (simp add: answered_def d)
  let ?w = "accumulate env out e m w"
  have red: "redis ?w = add_bits env (redis w) e"
    by (simp add: accumulate_answered [OF a])
  have "\<forall>e' \<in> insert e S. reported_present env (redis ?w) e'"
    using Cons.prems(2) by (auto simp: red present_add_self present_add_mono)
  from Cons.IH [OF r this] show ?case by (simp add: d accumulate_all_Cons)
qed

lemma accumulate_all_skips:
  "list_all answered ds \<Longrightarrow> \<forall>e \<in> set (map fst ds). reported_present env (redis w) e \<Longrightarrow>
   counts (agg (accumulate_all env ds w)) = counts (agg w)"
proof (induction ds arbitrary: w)
  case Nil
  show ?case by (simp add: accumulate_all_Nil)
next
  case (Cons d ds)
  obtain e m out where d: "d = (e, m, out)" by (cases d)
  from Cons.prems(1) have r: "list_all answered ds" and "answered d" by simp_all
  then have a: "add_reply out = IntReply \<or> add_reply out = BoolReply"
    by (simp add: answered_def d)
  let ?w = "accumulate env out e m w"
  from Cons.prems(2) d have p: "reported_present env (redis w) e" by simp
  have red: "redis ?w = add_bits env (redis w) e" and c: "counts (agg ?w) = counts (agg w)"
    using p by (simp_all add: accumulate_answered [OF a])
  have "\<forall>e' \<in> set (map fst ds). reported_present env (redis ?w) e'"
    using Cons.prems(2) by (auto simp: red present_add_mono)
  from Cons.IH [OF r this] c show ?case by (simp add: d accumulate_all_Cons)
qed

lemma event2_simps:
  "event_day utc_env event2 = ''2026-01-29''" "key_of utc_env event2 = key1"
  "EventID event2 = ''e2''" "EventID event1 = ''e1''"
  using event_day_event1_utc key_of_event1
  by (simp_all add: event2_def event_day_def key_of_def event1_def)

lemma dedup_id_examples:
  "dedup_id utc_env event1 = (''2026-01-29'', ''e1'')"
  "dedup_id utc_env event2 = (''2026-01-29'', ''e2'')"
  by (simp_all add: dedup_id_def event_day_event1_utc event2_simps)

lemma reported_present_utc:
  "reported_present utc_env R e = (length (EventID e) \<in> filter_bits R (event_day utc_env e))"
  by (simp add: reported_present_def utc_env_def)

lemma bloom_bits_utc: "bloom_bits utc_env x = [length x]"
  by (simp add: utc_env_def)

lemma filter_bits_empty: "filter_bits Map.empty d = {}"
  by (simp add: filter_bits_def)

lemma deduplicated_count_example:
  "deduplicated_count utc_env [] [event1, event1] key1 = 1"
  by (simp add: deduplicated_count_def dedup_id_examples key_of_event1 event2_simps)

lemma answered_examples:
  "answered (e, m, redis_up)" "\<not> answered (e, m, redis_down)"
  by (simp_all add: answered_def redis_up_def redis_down_def)

lemma world0_simps:
  "redis world0 = Map.empty" "counts (agg world0) = []" "cassandra world0 key = 0"
  by (simp_all add: world0_def new_Aggregator_def)

lemma one_delivery_counts:
  "deduplicated_count utc_env [] [event1] key1 = 1"
  "false_positive_count utc_env Map.empty [] [event1] key1 = 0"
  by (simp_all add: deduplicated_count_def false_positive_count_def key_of_event1
      reported_present_utc filter_bits_empty)

lemma second_delivery_redis_down:
  "counts (agg (accumulate utc_env redis_down event1 m
      (accumulate utc_env redis_up event1 m' world0))) = [(key1, 2)]"
  by (simp add: accumulate_no_reply redis_down_def first_delivery key_of_event1)

subsection \<open>Duplicates\<close>

lemma counted_append:
  "counted env R (xs @ ys) = counted env R xs @ counted env (foldl (add_bits env) R xs) ys"
  by (induction xs arbitrary: R) simp_all

lemma delivered_Cons: "delivered env (s # steps) = step_events env s @ delivered env steps"
  by (simp add: delivered_def)

lemma delivered_Nil: "delivered env [] = []"
  by (simp add: delivered_def)

lemma do_step_redis:
  assumes "reliable env key s"
  shows "redis (do_step env w s) = foldl (add_bits env) (redis w) (step_events env s)"
proof (cases s)
  case (Flush fo)
  show ?thesis by (simp add: Flush flush_redis)
next
  case (Turn f out cfails)
  show ?thesis
  proof (cases f)
    case FetchError
    show ?thesis by (simp add: Turn FetchError main_iteration_def)
  next
    case (Fetched msg)
    show ?thesis
    proof (cases "Unmarshal env (Value msg)")
      case None
      then show ?thesis by (simp add: Turn Fetched main_iteration_def)
    next
      case (Some e)
      with assms Turn Fetched have a: "add_reply out = IntReply \<or> add_reply out = BoolReply"
        by simp
      show ?thesis by (simp add: Turn Fetched Some main_iteration_def accumulate_answered [OF a])
    qed
  qed
qed

lemma do_step_distinct:
  assumes "distinct (map fst (counts (agg w)))"
  shows "distinct (map fst (counts (agg (do_step env w s))))"
proof (cases s)
  case (Flush fo)
  show ?thesis by (simp add: Flush flush_counts)
next
  case (Turn f out cfails)
  show ?thesis
  proof (cases f)
    case FetchError
    with assms show ?thesis by (simp add: Turn main_iteration_def)
  next
    case (Fetched msg)
    show ?thesis
    proof (cases "Unmarshal env (Value msg)")
      case None
      with assms show ?thesis by (simp add: Turn Fetched main_iteration_def)
    next
      case (Some e)
      with accumulate_distinct [OF assms] show ?thesis
        by (simp add: Turn Fetched main_iteration_def)
    qed
  qed
qed

lemma lookup0_bound:
  assumes "pending_le n w"
  shows "unat (lookup0 (counts (agg w)) key) \<le> n"
proof (cases "map_of (counts (agg w)) key")
  case None
  then show ?thesis by (simp add: lookup0_def)
next
  case (Some v)
  then have "(key, v) \<in> set (counts (agg w))" by (rule map_of_SomeD)
  then have "v \<in> snd ` set (counts (agg w))" by force
  with assms have "unat v \<le> n" by (auto simp: pending_le_def)
  with Some show ?thesis by (simp add: lookup0_def)
qed

lemma sint_succ:
  assumes "unat (v :: int64) \<le> n" and "Suc n < 2 ^ 63"
  shows "sint (v + 1) = sint v + 1"
proof -
  have small: "unat v + 1 < 2 ^ 63" using assms by simp
  have "(2 :: nat) ^ 63 < 2 ^ 64" by simp
  with small have "unat v + 1 < 2 ^ 64" by linarith
  then have u: "unat (v + 1) = unat v + 1" by (simp add: unat_word_ariths)
  have "sint (v + 1) = int (unat (v + 1))"
    by (rule sint_unat_small) (simp only: u small)
  moreover have "sint v = int (unat v)"
    by (rule sint_unat_small) (use small in simp)
  ultimately show ?thesis by (simp add: u)
qed

text \<open>
  What is stored for a key plus what is pending for it grows, in a reliable step, by one
  for each event of the key that the filter does not report present.
\<close>

lemma do_step_total:
  assumes "reliable env key s" and "distinct (map fst (counts (agg w)))"
    and "pending_le n w" and "Suc n < 2 ^ 63"
  shows "cassandra (do_step env w s) key + sint (lookup0 (counts (agg (do_step env w s))) key) =
         cassandra w key + sint (lookup0 (counts (agg w)) key) +
         int (length (filter (\<lambda>e. key_of env e = key) (counted env (redis w) (step_events env s))))"
proof (cases s)
  case (Flush fo)
  with assms(1) have "\<not> write_fails fo key" by simp
  then show ?thesis
    by (simp add: Flush flush_cassandra flush_counts write_counts_apply [OF assms(2)] lookup0_Nil)
next
  case (Turn f out cfails)
  show ?thesis
  proof (cases f)
    case FetchError
    show ?thesis by (simp add: Turn FetchError main_iteration_def)
  next
    case (Fetched msg)
    show ?thesis
    proof (cases "Unmarshal env (Value msg)")
      case None
      then show ?thesis by (simp add: Turn Fetched main_iteration_def)
    next
      case (Some e)
      with assms(1) Turn Fetched have a: "add_reply out = IntReply \<or> add_reply out = BoolReply"
        by simp
      have s1: "sint (lookup0 (counts (agg w)) key + 1) = sint (lookup0 (counts (agg w)) key) + 1"
        using lookup0_bound [OF assms(3)] assms(4) by (rule sint_succ)
      show ?thesis
        using s1
        by (auto simp: Turn Fetched Some main_iteration_def accumulate_answered [OF a]
            lookup0_add_count)
    qed
  qed
qed

lemma run_total:
  "list_all (reliable env key) steps \<Longrightarrow> distinct (map fst (counts (agg w))) \<Longrightarrow>
   pending_le n w \<Longrightarrow> n + length steps < 2 ^ 63 \<Longrightarrow>
   cassandra (run env steps w) key + sint (lookup0 (counts (agg (run env steps w))) key) =
   cassandra w key + sint (lookup0 (counts (agg w)) key) +
   int (length (filter (\<lambda>e. key_of env e = key) (counted env (redis w) (delivered env steps))))"
proof (induction steps arbitrary: w n)
  case Nil
  show ?case by (simp add: run_def delivered_Nil)
next
  case (Cons s steps)
  let ?w = "do_step env w s"
  from Cons.prems(1) have r: "reliable env key s" and rs: "list_all (reliable env key) steps"
    by simp_all
  from Cons.prems(4) have n: "Suc n < 2 ^ 63" and l: "Suc n + length steps < 2 ^ 63" by simp_all
  have step: "cassandra ?w key + sint (lookup0 (counts (agg ?w)) key) =
         cassandra w key + sint (lookup0 (counts (agg w)) key) +
         int (length (filter (\<lambda>e. key_of env e = key) (counted env (redis w) (step_events env s))))"
    using r Cons.prems(2,3) n by (rule do_step_total)
  have rest: "cassandra (run env steps ?w) key + sint (lookup0 (counts (agg (run env steps ?w))) key) =
         cassandra ?w key + sint (lookup0 (counts (agg ?w)) key) +
         int (length (filter (\<lambda>e. key_of env e = key) (counted env (redis ?w) (delivered env steps))))"
    using rs do_step_distinct [OF Cons.prems(2)] do_step_pending [OF Cons.prems(3)] l
    by (rule Cons.IH)
  show ?case
    unfolding run_Cons delivered_Cons counted_append rest step do_step_redis [OF r, symmetric]
    by simp
qed

lemma run_Nil: "run env [] w = w"
  by (simp add: run_def)

lemma run_distinct:
  "distinct (map fst (counts (agg w))) \<Longrightarrow> distinct (map fst (counts (agg (run env steps w))))"
proof (induction steps arbitrary: w)
  case Nil
  then show ?case by (simp add: run_Nil)
next
  case (Cons s steps)
  from Cons.IH [OF do_step_distinct [OF Cons.prems]] show ?case by (simp add: run_Cons)
qed

lemma history_present:
  assumes "list_all (reported_present env R) hist"
  shows "\<forall>e. dedup_id env e \<in> set (map (dedup_id env) hist) \<longrightarrow> reported_present env R e"
proof (intro allI impI)
  fix e assume "dedup_id env e \<in> set (map (dedup_id env) hist)"
  then obtain h where h: "h \<in> set hist" and eq: "dedup_id env e = dedup_id env h" by auto
  from assms h have "reported_present env R h" by (simp add: list_all_iff)
  with present_dedup_id [OF eq, of R] show "reported_present env R e" by simp
qed

text \<open>
  The events delivered in a run are a history for what follows the run: the filters
  report every one of them present, together with whatever they reported before.
\<close>

lemma add_bits_history:
  "list_all (reported_present env R) hs \<Longrightarrow>
   list_all (reported_present env (foldl (add_bits env) R es)) (hs @ es)"
proof (induction es arbitrary: R hs)
  case Nil
  then show ?case by simp
next
  case (Cons e es)
  have "list_all (reported_present env (add_bits env R e)) (hs @ [e])"
    using Cons.prems by (simp add: list_all_iff present_add_self present_add_mono)
  from Cons.IH [OF this] show ?case by simp
qed

lemma run_redis:
  "list_all (reliable env key) steps \<Longrightarrow>
   redis (run env steps w) = foldl (add_bits env) (redis w) (delivered env steps)"
proof (induction steps arbitrary: w)
  case Nil
  show ?case by (simp add: run_Nil delivered_Nil)
next
  case (Cons s steps)
  from Cons.prems have r: "reliable env key s" and rs: "list_all (reliable env key) steps"
    by simp_all
  show ?case
    by (simp add: run_Cons delivered_Cons Cons.IH [OF rs] do_step_redis [OF r])
qed

lemma delivered_is_history:
  assumes "list_all (reliable env key) steps"
    and "list_all (reported_present env (redis w)) hist"
  shows "list_all (reported_present env (redis (run env steps w))) (hist @ delivered env steps)"
  unfolding run_redis [OF assms(1)] using assms(2) by (rule add_bits_history)

text \<open>
  C1, as the code has it. Take any run of the aggregator (turns of the message loop
  and flushes, in any order and number) that starts with no pending delta, with filters
  in any state, and take as the history any events that the filters report present at
  the start (the events delivered in an earlier run are such a history, and fresh
  filters have the empty one). Let every dedup check of the run be answered and let no write for the key
  fail, and let a flush end the run. Then the increment of the stored count of the key
  over the run is the count over the deduplicated sequence of the delivered events (of
  the events with one id on one day only the first stays, and none stays whose id and
  day are in the history) minus the number of Bloom false positives for the key (the
  events reported present whose id and day occur neither in the history nor earlier in
  the run). So duplicates never add to the count, within a flush cycle or across flush
  cycles, and the count falls short of the deduplicated count by the false positives
  and by nothing else. (Fewer than \<open>2 ^ 63\<close> steps: the delta is an \<^verbatim>\<open>int64\<close>.)
\<close>

theorem persisted_increment:
  assumes "counts (agg w) = []"
    and "list_all (reported_present env (redis w)) hist"
    and "list_all (reliable env key) steps"
    and "\<not> write_fails fo key"
    and "length steps < 2 ^ 63"
  shows "cassandra (run env (steps @ [Flush fo]) w) key - cassandra w key +
           int (false_positive_count env (redis w) hist (delivered env steps) key) =
         int (deduplicated_count env hist (delivered env steps) key)"
proof -
  let ?es = "delivered env steps"
  let ?P = "\<lambda>e. key_of env e = key"
  let ?n = "length (filter ?P (counted env (redis w) ?es))"
  let ?w = "run env steps w"
  have p: "pending_le 0 w" and d: "distinct (map fst (counts (agg w)))"
    using assms(1) by (simp_all add: pending_le_def)
  have l: "0 + length steps < 2 ^ 63" using assms(5) by simp
  have total: "cassandra ?w key + sint (lookup0 (counts (agg ?w)) key) =
      cassandra w key + sint (lookup0 (counts (agg w)) key) + int ?n"
    using assms(3) d p l by (rule run_total)
  have dw: "distinct (map fst (counts (agg ?w)))"
    using d by (rule run_distinct)
  have "cassandra (run env (steps @ [Flush fo]) w) key =
        cassandra ?w key + sint (lookup0 (counts (agg ?w)) key)"
    using assms(4)
    by (simp add: run_append run_Cons run_Nil flush_cassandra write_counts_apply [OF dw])
  with total have inc: "cassandra (run env (steps @ [Flush fo]) w) key - cassandra w key = int ?n"
    by (simp add: assms(1) lookup0_Nil)
  have "mset (counted env (redis w) ?es) +
        mset (false_positives env (redis w) (map (dedup_id env) hist) ?es) =
        mset (dedup_first (dedup_id env)
               (filter (\<lambda>e. dedup_id env e \<notin> set (map (dedup_id env) hist)) ?es))"
    using history_present [OF assms(2)] by (rule counted_and_false_positives)
  then have "?n + false_positive_count env (redis w) hist ?es key =
             deduplicated_count env hist ?es key"
    unfolding false_positive_count_def deduplicated_count_def by (rule count_split)
  with inc show ?thesis by simp
qed

lemma dedup_env_simps:
  "event_day dedup_env e = event_day utc_env e" "key_of dedup_env e = key_of utc_env e"
  "dedup_id dedup_env e = dedup_id utc_env e" "bloom_bits dedup_env x = [length x]"
  by (simp_all add: event_day_def key_of_def dedup_id_def dedup_env_def utc_env_def)

lemma reported_present_dedup:
  "reported_present dedup_env R e = (length (EventID e) \<in> filter_bits R (event_day utc_env e))"
  by (simp add: reported_present_def dedup_env_simps)

lemma event3_simps:
  "event_day utc_env event3 = ''2026-01-29''" "key_of utc_env event3 = key1"
  "EventID event3 = ''e10''" "dedup_id utc_env event3 = (''2026-01-29'', ''e10'')"
  using event_day_event1_utc key_of_event1
  by (simp_all add: event3_def event_day_def key_of_def dedup_id_def event1_def)

lemma event4_simps:
  "event_day utc_env event4 = ''2026-01-29''" "key_of utc_env event4 = key1"
  "EventID event4 = ''e100''" "dedup_id utc_env event4 = (''2026-01-29'', ''e100'')"
  using event_day_event1_utc key_of_event1
  by (simp_all add: event4_def event_day_def key_of_def dedup_id_def event1_def)

lemma world1_simps:
  "counts (agg world1) = []" "cassandra world1 key1 = 1"
  "filter_bits (redis world1) ''2026-01-29'' = {2}"
  by (simp_all add: world1_def world0_def new_Aggregator_def filter_bits_def)

text \<open>The state \<open>world1\<close> has the filters and the stored counts of the state reached from
  the initial one by a first delivery of the first event and a flush.\<close>

lemma world1_reached:
  "redis (flush writes_succeed (accumulate utc_env redis_up event1 m world0)) = redis world1"
  "cassandra (flush writes_succeed (accumulate utc_env redis_up event1 m world0)) = cassandra world1"
proof -
  show "redis (flush writes_succeed (accumulate utc_env redis_up event1 m world0)) = redis world1"
    by (simp add: flush_redis first_delivery add_bits_def filter_bits_empty event_day_event1_utc
        bloom_bits_utc event2_simps world1_def numeral_2_eq_2)
  show "cassandra (flush writes_succeed (accumulate utc_env redis_up event1 m world0)) =
        cassandra world1"
    by (simp add: flush_cassandra first_delivery writes_succeed_def world1_def fun_eq_iff)
       (simp add: world0_def)
qed

lemma delivered_dedup_run:
  "delivered dedup_env dedup_run = [event1, event3, event2, event3, event4]"
  by (simp add: delivered_def dedup_run_def payload_msg_def dedup_env_def utc_env_def)

lemma reliable_dedup_run: "list_all (reliable dedup_env key1) dedup_run"
  by (simp add: dedup_run_def payload_msg_def dedup_env_def utc_env_def redis_up_def
      writes_succeed_def)

lemma dedup_run_counts:
  "deduplicated_count dedup_env [event1] [event1, event3, event2, event3, event4] key1 = 3"
  "false_positive_count dedup_env (redis world1) [event1] [event1, event3, event2, event3, event4] key1 = 1"
  by (simp_all add: deduplicated_count_def false_positive_count_def dedup_env_simps
      dedup_id_examples event3_simps event4_simps event2_simps key_of_event1 event_day_event1_utc
      reported_present_dedup filter_bits_add world1_simps)

text \<open>
  C1, witness: the state in which the first event has been counted and flushed, with
  that event as the history, and the run in two flush cycles. The delivered events are
  e1, e10, e2, e10, e100: e1 is in the history, the second e10 repeats the first across
  the flush, and the toy filter takes e2 for e1. The deduplicated count of the key is 3,
  one of the three is a false positive, and the stored count goes from 1 to 3, by one in
  each flush cycle.
\<close>

theorem persisted_increment_witness:
  "counts (agg world1) = [] \<and>
   list_all (reported_present dedup_env (redis world1)) [event1] \<and>
   list_all (reliable dedup_env key1) dedup_run \<and>
   \<not> write_fails writes_succeed key1 \<and>
   length dedup_run < 2 ^ 63 \<and>
   delivered dedup_env dedup_run = [event1, event3, event2, event3, event4] \<and>
   deduplicated_count dedup_env [event1] (delivered dedup_env dedup_run) key1 = 3 \<and>
   false_positive_count dedup_env (redis world1) [event1] (delivered dedup_env dedup_run) key1 = 1 \<and>
   cassandra world1 key1 = 1 \<and>
   cassandra (run dedup_env (dedup_run @ [Flush writes_succeed]) world1) key1 = 3"
proof -
  have h1: "counts (agg world1) = []" by (simp add: world1_simps)
  have h2: "list_all (reported_present dedup_env (redis world1)) [event1]"
    by (simp add: reported_present_dedup event_day_event1_utc world1_simps event2_simps)
  have h4: "\<not> write_fails writes_succeed key1" by (simp add: writes_succeed_def)
  have h5: "length dedup_run < 2 ^ 63" by (simp add: dedup_run_def)
  from persisted_increment [OF h1 h2 reliable_dedup_run h4 h5]
  have "cassandra (run dedup_env (dedup_run @ [Flush writes_succeed]) world1) key1 = 3"
    by (simp add: delivered_dedup_run dedup_run_counts world1_simps)
  with h1 h2 reliable_dedup_run h4 h5 show ?thesis
    by (simp add: delivered_dedup_run dedup_run_counts world1_simps)
qed

text \<open>
  C1, counterexample: the event e1 is delivered twice to an aggregator with fresh
  filters, and the dedup check of the second delivery fails (Redis does not answer). \<^verbatim>\<open>accumulate\<close> then counts the event
  "anyway", and the stored count becomes 2 for a deduplicated count of 1. And when the
  event is delivered once and the write of the flush fails, the stored count stays 0
  for a deduplicated count of 1, without any false positive.
\<close>

theorem count_differs_from_deduplicated:
  "cassandra world0 key1 = 0 \<and>
   deduplicated_count utc_env [] [event1, event1] key1 = 1 \<and>
   cassandra (flush writes_succeed (accumulate_all utc_env
      [(event1, listen_msg 5, redis_up), (event1, listen_msg 6, redis_down)] world0)) key1 = 2 \<and>
   deduplicated_count utc_env [] [event1] key1 = 1 \<and>
   false_positive_count utc_env (redis world0) [] [event1] key1 = 0 \<and>
   cassandra (flush writes_fail (accumulate_all utc_env
      [(event1, listen_msg 5, redis_up)] world0)) key1 = 0"
proof -
  have twice: "cassandra (flush writes_succeed (accumulate_all utc_env
      [(event1, listen_msg 5, redis_up), (event1, listen_msg 6, redis_down)] world0)) key1 = 2"
    by (simp add: accumulate_all_Cons accumulate_all_Nil flush_cassandra
        second_delivery_redis_down accumulate_frame world0_simps writes_succeed_def)
  have lost: "cassandra (flush writes_fail (accumulate_all utc_env
      [(event1, listen_msg 5, redis_up)] world0)) key1 = 0"
    by (simp add: accumulate_all_Cons accumulate_all_Nil flush_cassandra first_delivery
        writes_fail_def)
       (simp add: world0_def)
  from twice lost show ?thesis
    by (simp add: world0_simps deduplicated_count_example one_delivery_counts)
qed

subsection \<open>Replay\<close>

text \<open>
  C3, as the code has it. A batch is accumulated with every dedup check answered (so
  every id is in its day's filter) and flushed; the process restarts; events of the
  batch are delivered again and flushed. When the checks of the replay are answered
  too, the replay changes no stored count, whatever the outcome of the writes and
  commits of either flush.
\<close>

theorem replay_persists_nothing:
  assumes "list_all answered ds1" and "list_all answered ds2"
    and "set (map fst ds2) \<subseteq> set (map fst ds1)"
  shows "cassandra (flush fo2 (accumulate_all env ds2
                      (restart (flush fo1 (accumulate_all env ds1 w))))) =
         cassandra (flush fo1 (accumulate_all env ds1 w))"
proof -
  let ?w1 = "flush fo1 (accumulate_all env ds1 w)"
  have "\<forall>e \<in> {} \<union> set (map fst ds1). reported_present env (redis (accumulate_all env ds1 w)) e"
    using assms(1) by (rule accumulate_all_present) simp
  then have "\<forall>e \<in> set (map fst ds2). reported_present env (redis (accumulate_all env ds1 w)) e"
    using assms(3) by blast
  then have "\<forall>e \<in> set (map fst ds2). reported_present env (redis (restart ?w1)) e"
    by (simp only: restart_simps flush_redis)
  with assms(2) have "counts (agg (accumulate_all env ds2 (restart ?w1))) = counts (agg (restart ?w1))"
    by (rule accumulate_all_skips)
  then have "counts (agg (accumulate_all env ds2 (restart ?w1))) = []"
    by (simp add: restart_simps)
  then show ?thesis
    by (simp add: flush_cassandra accumulate_all_cassandra restart_simps)
qed

text \<open>
  C3, witness: the event e1 is counted and flushed, the commit fails, the process
  restarts and the event is delivered again: the stored count is 1 before and after.
\<close>

theorem replay_persists_nothing_witness:
  "list_all answered [(event1, listen_msg 5, redis_up)] \<and>
   set (map fst [(event1, listen_msg 5, redis_up)]) \<subseteq> set (map fst [(event1, listen_msg 5, redis_up)]) \<and>
   cassandra (flush (writes_succeed\<lparr>commit_fails := True\<rparr>)
      (accumulate_all utc_env [(event1, listen_msg 5, redis_up)] world0)) key1 = 1 \<and>
   cassandra (flush writes_succeed (accumulate_all utc_env [(event1, listen_msg 5, redis_up)]
      (restart (flush (writes_succeed\<lparr>commit_fails := True\<rparr>)
         (accumulate_all utc_env [(event1, listen_msg 5, redis_up)] world0))))) key1 = 1"
proof -
  let ?ds = "[(event1, listen_msg 5, redis_up)]"
  let ?fo = "writes_succeed\<lparr>commit_fails := True\<rparr>"
  have h1: "list_all answered ?ds" by (simp add: answered_examples)
  have h3: "set (map fst ?ds) \<subseteq> set (map fst ?ds)" by simp
  have first: "cassandra (flush ?fo (accumulate_all utc_env ?ds world0)) key1 = 1"
    by (simp add: accumulate_all_Cons accumulate_all_Nil flush_cassandra first_delivery
        writes_succeed_def)
       (simp add: world0_def)
  from replay_persists_nothing [OF h1 h1 h3, of writes_succeed utc_env ?fo world0] first h1
  show ?thesis by simp
qed

text \<open>
  C3, counterexample: the same replay while Redis does not answer. The replayed event
  is counted again and the stored count goes from 1 to 2.
\<close>

theorem replay_counted_when_check_fails:
  "cassandra (flush writes_succeed
      (accumulate_all utc_env [(event1, listen_msg 5, redis_up)] world0)) key1 = 1 \<and>
   cassandra (flush writes_succeed (accumulate_all utc_env [(event1, listen_msg 5, redis_down)]
      (restart (flush writes_succeed
         (accumulate_all utc_env [(event1, listen_msg 5, redis_up)] world0))))) key1 = 2"
proof -
  let ?w1 = "flush writes_succeed (accumulate_all utc_env [(event1, listen_msg 5, redis_up)] world0)"
  have first: "cassandra ?w1 key1 = 1"
    by (simp add: accumulate_all_Cons accumulate_all_Nil flush_cassandra first_delivery
        writes_succeed_def)
       (simp add: world0_def)
  have "counts (agg (accumulate utc_env redis_down event1 (listen_msg 5) (restart ?w1))) =
          [(key1, 1)]"
    by (simp add: accumulate_no_reply redis_down_def restart_simps key_of_event1)
  then have "cassandra (flush writes_succeed
      (accumulate_all utc_env [(event1, listen_msg 5, redis_down)] (restart ?w1))) key1 = 2"
    using first
    by (simp add: accumulate_all_Cons accumulate_all_Nil flush_cassandra accumulate_frame
        restart_simps writes_succeed_def)
  with first show ?thesis by simp
qed

end
